theory Spec2Isabelle
  imports Complex_Main
begin

section \<open>The segment tree of segment_tree.hpp\<close>

text \<open>
  A shallow embedding of the class template \<open>ys::SegmentTree<TYPE>\<close> and of the driver
  \<open>main.cpp\<close>.

  \<^item> \<open>size_t\<close> values are natural numbers. The input array holds \<open>n\<close> objects, so \<open>n\<close> is
    below \<open>2 ^ 63\<close> on a 64-bit target; then \<open>n_ \<le> 2 ^ 63\<close>, \<open>m_ + n_ < 2 ^ 64\<close>, and
    \<open>left + right\<close>, \<open>index * 2 + 1\<close> stay below \<open>2 ^ 64\<close> as well: no operation of the class
    wraps around.
  \<^item> \<open>assert\<close> is modelled as enforced (a build without \<open>NDEBUG\<close>): a failed assertion is
    the error \<open>Assertion_failed\<close> carrying the asserted expression.
  \<^item> \<open>data_[i]\<close> with \<open>i\<close> outside the vector is undefined behaviour in C++; the model
    makes it the error \<open>Out_of_bounds i\<close>. A read of the input array past its end is
    \<open>Input_out_of_bounds\<close>, a call through a null \<open>compare_\<close> is \<open>Null_call\<close>.
  \<^item> An identifier cannot end in an underscore here, so the fields \<open>m_\<close>, \<open>n_\<close>,
    \<open>data_\<close> and \<open>compare_\<close> are \<open>m_of\<close>, \<open>n_of\<close>, \<open>data_of\<close> and \<open>compare_of\<close>.
  \<^item> Every access to \<open>data_\<close> is appended to the ghost field \<open>trace_of\<close>, which the
    program itself never reads.
\<close>

subsection \<open>State and primitive accesses\<close>

datatype error =
    Assertion_failed string
  | Out_of_bounds nat
  | Input_out_of_bounds nat
  | Null_call
  | Diverges

datatype access = Rd nat | Wr nat

fun slot :: "access \<Rightarrow> nat" where
  "slot (Rd i) = i"
| "slot (Wr i) = i"

record 'a SegmentTree =
  m_of :: nat
  n_of :: nat
  data_of :: "'a list"
  compare_of :: "('a \<Rightarrow> 'a \<Rightarrow> int) option"
  trace_of :: "access list"

text \<open>The constructor: \<open>m_(0), n_(0), compare_(0)\<close> and an empty vector.\<close>

definition new_SegmentTree :: "'a SegmentTree" where
  "new_SegmentTree = \<lparr>m_of = 0, n_of = 0, data_of = [], compare_of = None, trace_of = []\<rparr>"

text \<open>\<open>data_[i]\<close> as an rvalue and \<open>data_[i] = v\<close>.\<close>

definition rd :: "nat \<Rightarrow> 'a SegmentTree \<Rightarrow> error + ('a \<times> 'a SegmentTree)" where
  "rd i t =
     (if i < length (data_of t)
      then Inr (data_of t ! i, t\<lparr>trace_of := trace_of t @ [Rd i]\<rparr>)
      else Inl (Out_of_bounds i))"

definition wr :: "nat \<Rightarrow> 'a \<Rightarrow> 'a SegmentTree \<Rightarrow> error + 'a SegmentTree" where
  "wr i v t =
     (if i < length (data_of t)
      then Inr (t\<lparr>data_of := (data_of t)[i := v], trace_of := trace_of t @ [Wr i]\<rparr>)
      else Inl (Out_of_bounds i))"

text \<open>\<open>compare_(a, b)\<close>: a call through the stored function pointer.\<close>

definition call_compare :: "'a SegmentTree \<Rightarrow> 'a \<Rightarrow> 'a \<Rightarrow> error + int" where
  "call_compare t a b = (case compare_of t of None \<Rightarrow> Inl Null_call | Some f \<Rightarrow> Inr (f a b))"

subsection \<open>The private member functions\<close>

definition set_leaf_simply :: "nat \<Rightarrow> 'a \<Rightarrow> 'a SegmentTree \<Rightarrow> error + 'a SegmentTree" where
  "set_leaf_simply i v t =
     (if i < m_of t then wr (i + n_of t) v t else Inl (Assertion_failed ''i < m_''))"

text \<open>
  The \<open>while (0 < i)\<close> loop of \<open>update\<close>, with the loop variables \<open>i\<close> and \<open>e\<close> as
  arguments. The two operands of \<open>compare_\<close> are read left to right.
\<close>

function update_loop :: "nat \<Rightarrow> nat \<Rightarrow> 'a SegmentTree \<Rightarrow> error + 'a SegmentTree" where
  "update_loop i e t =
     (if 0 < i then
        (let i' = i div 2; h = i' * 2; k = h + 1 in
         case (if k \<le> e
               then (case rd h t of Inl x \<Rightarrow> Inl x
                     | Inr (a, t1) \<Rightarrow>
                       (case rd k t1 of Inl x \<Rightarrow> Inl x
                        | Inr (b, t2) \<Rightarrow>
                          (case call_compare t2 a b of Inl x \<Rightarrow> Inl x
                           | Inr c \<Rightarrow> Inr (if 0 < c then k else h, t2))))
               else Inr (h, t)) of
           Inl x \<Rightarrow> Inl x
         | Inr (h', t3) \<Rightarrow>
             (case rd h' t3 of Inl x \<Rightarrow> Inl x
              | Inr (v, t4) \<Rightarrow>
                (case wr i' v t4 of Inl x \<Rightarrow> Inl x
                 | Inr t5 \<Rightarrow> update_loop i' (e div 2) t5)))
      else Inr t)"
  by pat_completeness auto
termination
  by (relation "measure (\<lambda>(i, e, t). i)") auto

definition update :: "nat \<Rightarrow> 'a SegmentTree \<Rightarrow> error + 'a SegmentTree" where
  "update i t =
     (if i < m_of t then update_loop (i + n_of t) (m_of t + n_of t - 1) t
      else Inl (Assertion_failed ''i < m_''))"

text \<open>
  \<open>get_value_sub\<close> returns a tree index, \<open>0\<close> for "nothing found". It is \<open>const\<close>: only the
  ghost trace changes.
\<close>

function get_value_sub ::
  "nat \<Rightarrow> nat \<Rightarrow> nat \<Rightarrow> nat \<Rightarrow> nat \<Rightarrow> 'a SegmentTree \<Rightarrow> error + (nat \<times> 'a SegmentTree)" where
  "get_value_sub from to index left right t =
     (if right < from \<or> to < left then Inr (0, t)
      else if from \<le> left \<and> right \<le> to then Inr (index, t)
      else
        (let center = (left + right) div 2 in
         case get_value_sub from to (index * 2) left center t of Inl x \<Rightarrow> Inl x
         | Inr (i, t1) \<Rightarrow>
           (case get_value_sub from to (index * 2 + 1) (center + 1) right t1 of Inl x \<Rightarrow> Inl x
            | Inr (j, t2) \<Rightarrow>
                if j = 0 then Inr (i, t2)
                else if i = 0 then Inr (j, t2)
                else
                  (case rd i t2 of Inl x \<Rightarrow> Inl x
                   | Inr (a, t3) \<Rightarrow>
                     (case rd j t3 of Inl x \<Rightarrow> Inl x
                      | Inr (b, t4) \<Rightarrow>
                        (case call_compare t4 a b of Inl x \<Rightarrow> Inl x
                         | Inr c \<Rightarrow> if 0 \<ge> c then Inr (i, t4) else Inr (j, t4)))))))"
  by pat_completeness auto
termination
  by (relation "measure (\<lambda>(from, to, index, left, right, t). right - left)") auto

subsection \<open>The public member functions\<close>

text \<open>\<open>n_ = 1; while (n_ < n) n_ *= 2;\<close> The loop is not total on all arguments.\<close>

partial_function (option) grow :: "nat \<Rightarrow> nat \<Rightarrow> nat option" where
  "grow k n = (if k < n then grow (k * 2) n else Some k)"

declare grow.simps [code]

text \<open>\<open>std::vector::resize(k)\<close>; \<open>dflt\<close> is the value-initialised element \<open>TYPE()\<close>.\<close>

definition resize :: "nat \<Rightarrow> 'a \<Rightarrow> 'a list \<Rightarrow> 'a list" where
  "resize k dflt xs = take k xs @ replicate (k - length xs) dflt"

text \<open>\<open>for (size_t i(0); i < n; ++i) set_leaf_simply(i, data[i]);\<close>\<close>

function leaf_loop :: "'a list \<Rightarrow> nat \<Rightarrow> nat \<Rightarrow> 'a SegmentTree \<Rightarrow> error + 'a SegmentTree" where
  "leaf_loop xs n i t =
     (if i < n then
        (if i < length xs then
           (case set_leaf_simply i (xs ! i) t of Inl x \<Rightarrow> Inl x
            | Inr t' \<Rightarrow> leaf_loop xs n (i + 1) t')
         else Inl (Input_out_of_bounds i))
      else Inr t)"
  by pat_completeness auto
termination
  by (relation "measure (\<lambda>(xs, n, i, t). n - i)") auto

text \<open>\<open>for (size_t i(0); i < n; i += 2) update(i);\<close>\<close>

function node_loop :: "nat \<Rightarrow> nat \<Rightarrow> 'a SegmentTree \<Rightarrow> error + 'a SegmentTree" where
  "node_loop n i t =
     (if i < n then
        (case update i t of Inl x \<Rightarrow> Inl x | Inr t' \<Rightarrow> node_loop n (i + 2) t')
      else Inr t)"
  by pat_completeness auto
termination
  by (relation "measure (\<lambda>(n, i, t). n - i)") auto

text \<open>
  \<open>prepare(data, n, compare)\<close>: the pointer \<open>data\<close> is \<open>None\<close> when null, else the array
  it points to; likewise \<open>compare\<close>.
\<close>

definition prepare ::
  "'a \<Rightarrow> 'a list option \<Rightarrow> nat \<Rightarrow> ('a \<Rightarrow> 'a \<Rightarrow> int) option \<Rightarrow> 'a SegmentTree
    \<Rightarrow> error + 'a SegmentTree" where
  "prepare dflt data n compare t =
     (case data of None \<Rightarrow> Inl (Assertion_failed ''data'')
      | Some xs \<Rightarrow>
        if n = 0 then Inl (Assertion_failed ''n'')
        else if compare = None then Inl (Assertion_failed ''compare'')
        else
          (let t1 = t\<lparr>m_of := n, compare_of := compare\<rparr> in
           case grow 1 n of None \<Rightarrow> Inl Diverges
           | Some k \<Rightarrow>
             (let t2 = t1\<lparr>n_of := k\<rparr>;
                  t3 = t2\<lparr>data_of := resize (m_of t2 + n_of t2) dflt (data_of t2)\<rparr> in
              case leaf_loop xs n 0 t3 of Inl x \<Rightarrow> Inl x
              | Inr t4 \<Rightarrow> node_loop n 0 t4)))"

definition set_leaf :: "nat \<Rightarrow> 'a \<Rightarrow> 'a SegmentTree \<Rightarrow> error + 'a SegmentTree" where
  "set_leaf i v t =
     (if i < m_of t then
        (case set_leaf_simply i v t of Inl x \<Rightarrow> Inl x | Inr t' \<Rightarrow> update i t')
      else Inl (Assertion_failed ''i < m_''))"

definition get_value :: "nat \<Rightarrow> nat \<Rightarrow> 'a SegmentTree \<Rightarrow> error + ('a \<times> 'a SegmentTree)" where
  "get_value from to t =
     (if \<not> from \<le> to then Inl (Assertion_failed ''from <= to'')
      else if \<not> to < m_of t then Inl (Assertion_failed ''to < m_'')
      else
        (case get_value_sub (from + 1) (to + 1) 1 1 (n_of t) t of Inl x \<Rightarrow> Inl x
         | Inr (i, t1) \<Rightarrow> if i = 0 then Inl (Assertion_failed ''i'') else rd i t1))"

text \<open>\<open>get_raw_data(i)\<close>: the address of slot \<open>i\<close>, or null.\<close>

definition get_raw_data :: "nat \<Rightarrow> 'a SegmentTree \<Rightarrow> nat option" where
  "get_raw_data i t = (if i < m_of t + n_of t then Some i else None)"

subsection \<open>The driver main.cpp\<close>

text \<open>
  \<open>compare\<close> of main.cpp. The driver's floats are the integers 0 to 9, which \<open>float\<close>
  represents exactly and orders as the reals do.
\<close>

definition compare :: "real \<Rightarrow> real \<Rightarrow> int" where
  "compare left right = (if left < right then -1 else if left > right then 1 else 0)"

definition main_data :: "real list" where
  "main_data = [7, 2, 4, 3, 9, 8, 0, 6, 5, 1]"
section \<open>Notions of the specification\<close>

text \<open>
  The merge of two candidates: the second operand wins only when the comparator
  is positive, so a tie keeps the first (left) one. This is the test \<open>0 < compare_(a, b)\<close> of
  \<open>update\<close> and the test \<open>0 >= compare_(a, b)\<close> of \<open>get_value_sub\<close>.
\<close>

definition better :: "('a \<Rightarrow> 'a \<Rightarrow> int) \<Rightarrow> 'a \<Rightarrow> 'a \<Rightarrow> 'a" where
  "better cmp a b = (if 0 < cmp a b then b else a)"

text \<open>
  A total, consistent comparator: \<open>cmp a b \<le> 0\<close> reads "\<open>a\<close> is at least as good as
  \<open>b\<close>", and this relation is total and transitive.
\<close>

definition total_preorder :: "('a \<Rightarrow> 'a \<Rightarrow> int) \<Rightarrow> bool" where
  "total_preorder cmp \<longleftrightarrow>
     (\<forall>a b. cmp a b \<le> 0 \<or> cmp b a \<le> 0) \<and>
     (\<forall>a b c. cmp a b \<le> 0 \<longrightarrow> cmp b c \<le> 0 \<longrightarrow> cmp a c \<le> 0)"

text \<open>
  The brute-force oracle of the specification: scan the positions \<open>from..to\<close> from
  left to right and keep the best element seen, replacing it only by a strictly better one.
\<close>

definition linear_scan :: "('a \<Rightarrow> 'a \<Rightarrow> int) \<Rightarrow> 'a list \<Rightarrow> nat \<Rightarrow> nat \<Rightarrow> 'a" where
  "linear_scan cmp xs from to =
     foldl (\<lambda>b x. if 0 < cmp b x then x else b) (xs ! from) (map ((!) xs) [from + 1 ..< to + 1])"

text \<open>
  \<open>covers n i j\<close>: the leaf of sequence position \<open>j\<close> (storage index \<open>n + j\<close>) lies in the
  subtree of node \<open>i\<close>, that is, halving \<open>n + j\<close> some number of times gives \<open>i\<close>.
\<close>

definition covers :: "nat \<Rightarrow> nat \<Rightarrow> nat \<Rightarrow> bool" where
  "covers n i j \<longleftrightarrow> j < n \<and> (\<exists>h\<in>{0..n}. (n + j) div 2 ^ h = i)"

text \<open>
  \<open>overlaps m n i\<close>: the subtree of node \<open>i\<close> holds a valid leaf, one of the positions
  \<open>0..m-1\<close>.
\<close>

definition overlaps :: "nat \<Rightarrow> nat \<Rightarrow> nat \<Rightarrow> bool" where
  "overlaps m n i \<longleftrightarrow> (\<exists>j\<in>{0..<m}. covers n i j)"

text \<open>
  The tree invariant of the specification: every internal node whose subtree overlaps
  the valid leaves holds the better of its two children, ties to the left child; where the
  right child's subtree holds no valid leaf, the node holds its left child.
\<close>

definition tree_invariant :: "'a SegmentTree \<Rightarrow> bool" where
  "tree_invariant t \<longleftrightarrow>
     (\<forall>i\<in>{1..<n_of t}. overlaps (m_of t) (n_of t) i \<longrightarrow>
        (case compare_of t of None \<Rightarrow> False
         | Some cmp \<Rightarrow>
             data_of t ! i =
               (if overlaps (m_of t) (n_of t) (2 * i + 1)
                then better cmp (data_of t ! (2 * i)) (data_of t ! (2 * i + 1))
                else data_of t ! (2 * i))))"

text \<open>
  The ancestor chain of node \<open>c\<close>: the indices obtained by halving \<open>c\<close> repeatedly, up to
  the root at index \<open>1\<close>.
\<close>

function ancestors :: "nat \<Rightarrow> nat list" where
  "ancestors c = (if 1 < c then (c div 2) # ancestors (c div 2) else [])"
  by pat_completeness auto
termination
  by (relation "measure (\<lambda>c. c)") auto

declare ancestors.simps [simp del]

text \<open>
  The Ready state. \<open>ready cmp s t\<close>: \<open>t\<close> was built by \<open>prepare\<close> on a fresh object with
  comparator \<open>cmp\<close> (the array has at least the \<open>n\<close> elements the call announces) and then
  went through any number of completed \<open>set_leaf\<close> and \<open>get_value\<close> calls; \<open>s\<close> is the
  element sequence as these calls leave it.
\<close>

inductive ready :: "('a \<Rightarrow> 'a \<Rightarrow> int) \<Rightarrow> 'a list \<Rightarrow> 'a SegmentTree \<Rightarrow> bool" where
  built: "n \<le> length xs \<Longrightarrow> prepare dflt (Some xs) n (Some cmp) new_SegmentTree = Inr t \<Longrightarrow>
          ready cmp (take n xs) t"
| updated: "ready cmp s t \<Longrightarrow> set_leaf i v t = Inr t' \<Longrightarrow> ready cmp (s[i := v]) t'"
| queried: "ready cmp s t \<Longrightarrow> get_value from to t = Inr (v, t') \<Longrightarrow> ready cmp s t'"

text \<open>
  A comparator with ties, for the examples: pairs are ranked by their first component.
\<close>

definition by_key :: "real \<times> nat \<Rightarrow> real \<times> nat \<Rightarrow> int" where
  "by_key a b = compare (fst a) (fst b)"

text \<open>
  The object after \<open>prepare\<close> over the sequence \<open>3, 1, 2\<close> with \<open>compare\<close>.
\<close>

definition example_tree :: "real SegmentTree" where
  "example_tree =
     \<lparr>m_of = 3, n_of = 4, data_of = [0, 1, 1, 2, 3, 1, 2], compare_of = Some compare,
      trace_of =
        [Wr 4, Wr 5, Wr 6, Rd 4, Rd 5, Rd 5, Wr 2, Rd 2, Rd 3, Rd 3, Wr 1, Rd 0, Rd 1, Rd 0, Wr 0,
         Rd 6, Wr 3, Rd 2, Rd 3, Rd 2, Wr 1, Rd 0, Rd 1, Rd 0, Wr 0]\<rparr>"

section \<open>Auxiliary notions of the proofs\<close>

text \<open>
  The left-to-right scan of a whole non-empty list.
\<close>

definition best :: "('a \<Rightarrow> 'a \<Rightarrow> int) \<Rightarrow> 'a list \<Rightarrow> 'a" where
  "best cmp xs = foldl (better cmp) (hd xs) (tl xs)"

text \<open>
  What one round of the loop of \<open>update\<close> stores in node \<open>p\<close>, read off the store \<open>d\<close>
  with the bound \<open>e\<close> of that round.
\<close>

definition pick :: "('a \<Rightarrow> 'a \<Rightarrow> int) \<Rightarrow> 'a list \<Rightarrow> nat \<Rightarrow> nat \<Rightarrow> 'a" where
  "pick cmp d p e =
     (if p * 2 + 1 \<le> e \<and> 0 < cmp (d ! (p * 2)) (d ! (p * 2 + 1)) then d ! (p * 2 + 1)
      else d ! (p * 2))"

text \<open>
  The contents of \<open>data_\<close> after the loop of \<open>update\<close>, without the checks and the
  trace. Lemma \<open>update_loop_eq\<close> ties it to \<open>update_loop\<close>.
\<close>

function upd_data :: "('a \<Rightarrow> 'a \<Rightarrow> int) \<Rightarrow> nat \<Rightarrow> nat \<Rightarrow> 'a list \<Rightarrow> 'a list" where
  "upd_data cmp i e d =
     (if 0 < i then upd_data cmp (i div 2) (e div 2) (d[i div 2 := pick cmp d (i div 2) e])
      else d)"
  by pat_completeness auto
termination
  by (relation "measure (\<lambda>(cmp, i, e, d). i)") auto

declare upd_data.simps [simp del]

text \<open>
  Node \<open>x\<close> stands \<open>s\<close> levels above the leaves of a tree with \<open>2 ^ d\<close> leaves.
\<close>

definition at_height :: "nat \<Rightarrow> nat \<Rightarrow> nat \<Rightarrow> bool" where
  "at_height d s x \<longleftrightarrow> s \<le> d \<and> 2 ^ (d - s) \<le> x \<and> x < 2 * 2 ^ (d - s)"

text \<open>
  Node \<open>x\<close>, at height \<open>s\<close>, holds what \<open>update\<close> would store there.
\<close>

definition node_ok :: "('a \<Rightarrow> 'a \<Rightarrow> int) \<Rightarrow> 'a list \<Rightarrow> nat \<Rightarrow> nat \<Rightarrow> nat \<Rightarrow> nat \<Rightarrow> bool" where
  "node_ok cmp d m dep s x \<longleftrightarrow> d ! x = pick cmp d x ((2 ^ dep + m - 1) div 2 ^ (s - 1))"

text \<open>
  Every node above one of the leaves \<open>j < min m bnd\<close> is in order.
\<close>

definition nodes_ok :: "('a \<Rightarrow> 'a \<Rightarrow> int) \<Rightarrow> 'a list \<Rightarrow> nat \<Rightarrow> nat \<Rightarrow> nat \<Rightarrow> bool" where
  "nodes_ok cmp d m dep bnd \<longleftrightarrow>
     (\<forall>j s. j < m \<and> j < bnd \<and> 1 \<le> s \<and> s \<le> dep \<longrightarrow> node_ok cmp d m dep s ((2 ^ dep + j) div 2 ^ s))"

text \<open>
  The element sequence a tree currently stores: its first \<open>m_\<close> leaves.
\<close>

definition elements :: "'a SegmentTree \<Rightarrow> 'a list" where
  "elements t = take (m_of t) (drop (n_of t) (data_of t))"

text \<open>
  The sizes, the comparator and the leaves of a tree over the sequence \<open>xs\<close>.
\<close>

definition shaped :: "('a \<Rightarrow> 'a \<Rightarrow> int) \<Rightarrow> 'a list \<Rightarrow> nat \<Rightarrow> 'a SegmentTree \<Rightarrow> bool" where
  "shaped cmp xs dep t \<longleftrightarrow>
     0 < m_of t \<and> m_of t = length xs \<and> n_of t = 2 ^ dep \<and> m_of t \<le> n_of t \<and>
     (dep = 0 \<or> 2 ^ (dep - 1) < m_of t) \<and>
     length (data_of t) = m_of t + n_of t \<and> compare_of t = Some cmp \<and> elements t = xs"

text \<open>
  Every access so far was inside the vector.
\<close>

definition trace_ok :: "'a SegmentTree \<Rightarrow> bool" where
  "trace_ok t \<longleftrightarrow> (\<forall>a\<in>set (trace_of t). slot a < length (data_of t))"

text \<open>
  \<open>t'\<close> is \<open>t\<close> after some accesses inside the vector: same sizes, same comparator.
\<close>

definition extends :: "'a SegmentTree \<Rightarrow> 'a SegmentTree \<Rightarrow> bool" where
  "extends t t' \<longleftrightarrow>
     m_of t' = m_of t \<and> n_of t' = n_of t \<and> compare_of t' = compare_of t \<and>
     length (data_of t') = length (data_of t) \<and>
     (\<exists>tr. trace_of t' = trace_of t @ tr \<and> (\<forall>a\<in>set tr. slot a < length (data_of t)))"

text \<open>
  The full invariant of a Ready tree.
\<close>

definition well_formed :: "('a \<Rightarrow> 'a \<Rightarrow> int) \<Rightarrow> 'a list \<Rightarrow> nat \<Rightarrow> 'a SegmentTree \<Rightarrow> bool" where
  "well_formed cmp xs dep t \<longleftrightarrow>
     shaped cmp xs dep t \<and> nodes_ok cmp (data_of t) (m_of t) dep (m_of t) \<and> trace_ok t"

text \<open>
  The index \<open>get_value_sub\<close> returns, without the checks and the trace. Lemma
  \<open>get_value_sub_eq\<close> ties it to \<open>get_value_sub\<close>.
\<close>

function gvs :: "('a \<Rightarrow> 'a \<Rightarrow> int) \<Rightarrow> 'a list \<Rightarrow> nat \<Rightarrow> nat \<Rightarrow> nat \<Rightarrow> nat \<Rightarrow> nat \<Rightarrow> nat" where
  "gvs cmp d from to index left right =
     (if right < from \<or> to < left then 0
      else if from \<le> left \<and> right \<le> to then index
      else
        (let center = (left + right) div 2;
             i = gvs cmp d from to (index * 2) left center;
             j = gvs cmp d from to (index * 2 + 1) (center + 1) right
         in if j = 0 then i else if i = 0 then j
            else if 0 \<ge> cmp (d ! i) (d ! j) then i else j))"
  by pat_completeness auto
termination
  by (relation "measure (\<lambda>(cmp, d, from, to, index, left, right). right - left)") auto

declare gvs.simps [simp del]

text \<open>
  The index the call of \<open>get_value_sub\<close> in \<open>get_value\<close> returns.
\<close>

definition query_index :: "('a \<Rightarrow> 'a \<Rightarrow> int) \<Rightarrow> nat \<Rightarrow> 'a list \<Rightarrow> nat \<Rightarrow> nat \<Rightarrow> nat" where
  "query_index cmp dep d from to = gvs cmp d (from + 1) (to + 1) 1 1 (2 ^ dep)"

text \<open>
  The arguments of a call of \<open>get_value_sub\<close> fit together: \<open>index\<close> is a node at
  height \<open>h\<close>, and \<open>left..right\<close> are the one-based positions of its leaves.
\<close>

definition call_geom :: "nat \<Rightarrow> nat \<Rightarrow> nat \<Rightarrow> nat \<Rightarrow> nat \<Rightarrow> bool" where
  "call_geom dep h index left right \<longleftrightarrow>
     at_height dep h index \<and> left + 2 ^ dep = index * 2 ^ h + 1 \<and>
     right + 2 ^ dep = (index + 1) * 2 ^ h"

text \<open>
  Node \<open>k\<close> stands at most \<open>h\<close> levels above the leaves and all its leaves lie in the
  one-based range \<open>F..T\<close>.
\<close>

definition inside :: "nat \<Rightarrow> nat \<Rightarrow> nat \<Rightarrow> nat \<Rightarrow> nat \<Rightarrow> bool" where
  "inside dep h F T k \<longleftrightarrow>
     (\<exists>h'\<le>h. at_height dep h' k \<and> F + 2 ^ dep \<le> k * 2 ^ h' + 1 \<and> (k + 1) * 2 ^ h' \<le> T + 2 ^ dep)"

text \<open>
  The leaves at the one-based positions \<open>a..b\<close> of a store with \<open>n\<close> internal slots.
\<close>

definition seg :: "nat \<Rightarrow> 'a list \<Rightarrow> nat \<Rightarrow> nat \<Rightarrow> 'a list" where
  "seg n d a b = take (b + 1 - a) (drop (n + a - 1) d)"

text \<open>
  The loops are unfolded by hand, one round at a time.
\<close>

declare update_loop.simps [simp del] get_value_sub.simps [simp del] leaf_loop.simps [simp del]
  node_loop.simps [simp del]

section \<open>Lemmas\<close>

subsection \<open>The comparator and the linear scan\<close>

lemma total_preorderD1: "total_preorder cmp \<Longrightarrow> 0 < cmp a b \<Longrightarrow> cmp b a \<le> 0"
  unfolding total_preorder_def by (metis not_less)

lemma total_preorderD2:
  "total_preorder cmp \<Longrightarrow> cmp a b \<le> 0 \<Longrightarrow> cmp b c \<le> 0 \<Longrightarrow> cmp a c \<le> 0"
  unfolding total_preorder_def by blast

lemma better_assoc:
  assumes "total_preorder cmp"
  shows "better cmp (better cmp a b) c = better cmp a (better cmp b c)"
proof -
  note tot = total_preorderD1[OF assms] and tr = total_preorderD2[OF assms]
  show ?thesis
  proof (cases "0 < cmp a b")
    case ab: True
    then have ba: "cmp b a \<le> 0" by (rule tot)
    show ?thesis
    proof (cases "0 < cmp b c")
      case True
      then have "cmp c b \<le> 0" by (rule tot)
      from tr[OF this ba] have "cmp c a \<le> 0" .
      have "0 < cmp a c"
      proof (rule ccontr)
        assume "\<not> 0 < cmp a c"
        then have "cmp a c \<le> 0" by simp
        from tr[OF ba this] True show False by simp
      qed
      with ab True show ?thesis by (simp add: better_def)
    next
      case False
      with ab show ?thesis by (simp add: better_def)
    qed
  next
    case ab: False
    then have ab': "cmp a b \<le> 0" by simp
    show ?thesis
    proof (cases "0 < cmp b c")
      case True
      with ab show ?thesis by (simp add: better_def)
    next
      case False
      then have "cmp b c \<le> 0" by simp
      from tr[OF ab' this] have "\<not> 0 < cmp a c" by simp
      with ab False show ?thesis by (simp add: better_def)
    qed
  qed
qed

lemma foldl_better_Cons:
  assumes "total_preorder cmp"
  shows "foldl (better cmp) a (y # ys) = better cmp a (foldl (better cmp) y ys)"
proof (induction ys arbitrary: a y)
  case Nil
  show ?case by simp
next
  case (Cons z zs)
  have "foldl (better cmp) a (y # z # zs) = foldl (better cmp) (better cmp a y) (z # zs)"
    by simp
  also have "\<dots> = better cmp (better cmp a y) (foldl (better cmp) z zs)"
    by (rule Cons.IH)
  also have "\<dots> = better cmp a (better cmp y (foldl (better cmp) z zs))"
    by (rule better_assoc[OF assms])
  also have "better cmp y (foldl (better cmp) z zs) = foldl (better cmp) y (z # zs)"
    by (rule Cons.IH[symmetric])
  finally show ?case .
qed

lemma best_single [simp]: "best cmp [x] = x"
  by (simp add: best_def)

lemma best_append:
  assumes "total_preorder cmp" "xs \<noteq> []" "ys \<noteq> []"
  shows "best cmp (xs @ ys) = better cmp (best cmp xs) (best cmp ys)"
proof -
  obtain x xs' where xs: "xs = x # xs'" using assms(2) by (cases xs) auto
  obtain y ys' where ys: "ys = y # ys'" using assms(3) by (cases ys) auto
  have "best cmp (xs @ ys) = foldl (better cmp) (foldl (better cmp) x xs') (y # ys')"
    by (simp add: best_def xs ys)
  also have "\<dots> = better cmp (foldl (better cmp) x xs') (foldl (better cmp) y ys')"
    by (rule foldl_better_Cons[OF assms(1)])
  finally show ?thesis by (simp add: best_def xs ys)
qed

lemma take_drop_nth_upt:
  "a + n \<le> length xs \<Longrightarrow> take n (drop a xs) = map ((!) xs) [a ..< a + n]"
  by (auto intro!: nth_equalityI)

lemma linear_scan_best:
  assumes "from \<le> to" "to < length xs"
  shows "linear_scan cmp xs from to = best cmp (take (to + 1 - from) (drop from xs))"
proof -
  have eq: "(\<lambda>b x. if 0 < cmp b x then x else b) = better cmp"
    by (intro ext) (simp add: better_def)
  have "from + (to + 1 - from) = to + 1" using assms(1) by simp
  with take_drop_nth_upt[of "from" "to + 1 - from" xs] assms(2)
  have seg: "take (to + 1 - from) (drop from xs) = map ((!) xs) [from ..< to + 1]"
    by simp
  have "[from ..< to + 1] = from # [from + 1 ..< to + 1]"
    using assms(1) by (simp only: upt_conv_Cons) (simp add: upt_conv_Cons)
  then have "map ((!) xs) [from ..< to + 1] = xs ! from # map ((!) xs) [from + 1 ..< to + 1]"
    by (simp only: list.map)
  then show ?thesis
    unfolding linear_scan_def best_def eq seg by (simp only: list.sel)
qed

text \<open>leftmost best characterisation\<close>

lemma best_leftmost:
  assumes tp: "total_preorder cmp"
  shows "ys \<noteq> [] \<Longrightarrow> \<exists>k < length ys. best cmp ys = ys ! k \<and>
           (\<forall>j < length ys. cmp (ys ! k) (ys ! j) \<le> 0) \<and> (\<forall>j < k. 0 < cmp (ys ! j) (ys ! k))"
proof (induction ys rule: rev_induct)
  case Nil
  then show ?case by simp
next
  case (snoc x xs)
  note tot = total_preorderD1[OF tp] and tr = total_preorderD2[OF tp]
  show ?case
  proof (cases "xs = []")
    case True
    have "cmp x x \<le> 0" using tp unfolding total_preorder_def by blast
    then show ?thesis using True by (simp add: best_def)
  next
    case False
    from snoc.IH[OF False] obtain k where k: "k < length xs" "best cmp xs = xs ! k"
      "\<forall>j < length xs. cmp (xs ! k) (xs ! j) \<le> 0" "\<forall>j < k. 0 < cmp (xs ! j) (xs ! k)"
      by blast
    have b: "best cmp (xs @ [x]) = better cmp (xs ! k) x"
      using best_append[OF tp False, of "[x]"] k(2) by simp
    show ?thesis
    proof (cases "0 < cmp (xs ! k) x")
      case True
      have xx: "cmp x x \<le> 0" using tp unfolding total_preorder_def by blast
      have 1: "cmp x ((xs @ [x]) ! j) \<le> 0" if "j < length (xs @ [x])" for j
      proof (cases "j < length xs")
        case True
        then show ?thesis using tr[OF tot[OF \<open>0 < cmp (xs ! k) x\<close>]] k(3) by (simp add: nth_append)
      next
        case False
        then show ?thesis using that xx by (simp add: nth_append)
      qed
      have 2: "0 < cmp ((xs @ [x]) ! j) x" if "j < length xs" for j
      proof (rule ccontr)
        assume "\<not> 0 < cmp ((xs @ [x]) ! j) x"
        then have "cmp (xs ! j) x \<le> 0" using that by (simp add: nth_append)
        with k(3) that have "cmp (xs ! k) x \<le> 0" using tr by blast
        with True show False by simp
      qed
      show ?thesis
        by (rule exI[of _ "length xs"]) (use b True 1 2 in \<open>auto simp: better_def nth_append\<close>)
    next
      case nb: False
      have 1: "cmp (xs ! k) ((xs @ [x]) ! j) \<le> 0" if "j < length (xs @ [x])" for j
        using that k(3) nb by (cases "j < length xs") (auto simp: nth_append)
      show ?thesis
        by (rule exI[of _ k]) (use b nb k 1 in \<open>auto simp: better_def nth_append\<close>)
    qed
  qed
qed

subsection \<open>The loop of update\<close>

lemma update_loop_0: "update_loop 0 e t = Inr t"
  by (simp add: update_loop.simps)

lemma update_loop_step:
  assumes "0 < i" "i < length (data_of t)" "e < length (data_of t)" "compare_of t = Some cmp"
  shows "\<exists>tr. (\<forall>a\<in>set tr. slot a < length (data_of t)) \<and>
           update_loop i e t =
           update_loop (i div 2) (e div 2)
             (t\<lparr>data_of := (data_of t)[i div 2 := pick cmp (data_of t) (i div 2) e],
                trace_of := trace_of t @ tr\<rparr>)"
proof -
  let ?p = "i div 2"
  have b: "?p * 2 < length (data_of t)" "?p < length (data_of t)"
    using assms(2) by auto
  show ?thesis
  proof (cases "?p * 2 + 1 \<le> e")
    case True
    then have k: "?p * 2 + 1 < length (data_of t)" using assms(3) by simp
    show ?thesis
    proof (cases "0 < cmp (data_of t ! (?p * 2)) (data_of t ! (?p * 2 + 1))")
      case c: True
      show ?thesis
        apply (rule exI[of _ "[Rd (?p * 2), Rd (?p * 2 + 1), Rd (?p * 2 + 1), Wr ?p]"])
        apply (subst update_loop.simps)
        using assms True c b k
        apply (simp add: rd_def wr_def call_compare_def Let_def pick_def)
        done
    next
      case c: False
      show ?thesis
        apply (rule exI[of _ "[Rd (?p * 2), Rd (?p * 2 + 1), Rd (?p * 2), Wr ?p]"])
        apply (subst update_loop.simps)
        using assms True c b k
        apply (simp add: rd_def wr_def call_compare_def Let_def pick_def)
        done
    qed
  next
    case False
    show ?thesis
      apply (rule exI[of _ "[Rd (?p * 2), Wr ?p]"])
      apply (subst update_loop.simps)
      using assms False b
      apply (simp add: rd_def wr_def call_compare_def Let_def pick_def)
      done
  qed
qed

lemma update_loop_eq:
  "i < length (data_of t) \<Longrightarrow> e < length (data_of t) \<Longrightarrow> compare_of t = Some cmp \<Longrightarrow>
   \<exists>tr. (\<forall>a\<in>set tr. slot a < length (data_of t)) \<and>
        update_loop i e t =
        Inr (t\<lparr>data_of := upd_data cmp i e (data_of t), trace_of := trace_of t @ tr\<rparr>)"
proof (induction i arbitrary: e t rule: less_induct)
  case (less i)
  show ?case
  proof (cases "0 < i")
    case False
    then show ?thesis
      by (intro exI[of _ "[]"]) (simp add: update_loop_0 upd_data.simps)
  next
    case True
    from update_loop_step[OF True less.prems] obtain tr1 where
      tr1: "\<forall>a\<in>set tr1. slot a < length (data_of t)"
      and st: "update_loop i e t = update_loop (i div 2) (e div 2)
             (t\<lparr>data_of := (data_of t)[i div 2 := pick cmp (data_of t) (i div 2) e],
                trace_of := trace_of t @ tr1\<rparr>)" (is "_ = update_loop _ _ ?t1")
      by blast
    have "i div 2 < i" using True by simp
    moreover have "i div 2 < length (data_of ?t1)" "e div 2 < length (data_of ?t1)"
      "compare_of ?t1 = Some cmp"
      using less.prems by auto
    ultimately obtain tr2 where
      tr2: "\<forall>a\<in>set tr2. slot a < length (data_of ?t1)"
      and r: "update_loop (i div 2) (e div 2) ?t1 =
        Inr (?t1\<lparr>data_of := upd_data cmp (i div 2) (e div 2) (data_of ?t1),
                 trace_of := trace_of ?t1 @ tr2\<rparr>)"
      using less.IH by blast
    have u: "upd_data cmp i e (data_of t) = upd_data cmp (i div 2) (e div 2) (data_of ?t1)"
      using True by (subst upd_data.simps) simp
    show ?thesis
      by (rule exI[of _ "tr1 @ tr2"]) (use tr1 tr2 st r u in auto)
  qed
qed

lemma length_upd_data [simp]: "length (upd_data cmp i e d) = length d"
proof (induction i arbitrary: e d rule: less_induct)
  case (less i)
  show ?case
  proof (cases "0 < i")
    case True
    then have "i div 2 < i" by simp
    from less.IH[OF this] True show ?thesis by (subst upd_data.simps) simp
  next
    case False
    then show ?thesis by (subst upd_data.simps) simp
  qed
qed

text \<open>frame: only the proper ancestors change\<close>

lemma upd_data_frame:
  "(\<And>s. 1 \<le> s \<Longrightarrow> q \<noteq> i div 2 ^ s) \<Longrightarrow> upd_data cmp i e d ! q = d ! q"
proof (induction i arbitrary: e d rule: less_induct)
  case (less i)
  show ?case
  proof (cases "0 < i")
    case False
    then show ?thesis by (subst upd_data.simps) simp
  next
    case True
    then have lt: "i div 2 < i" by simp
    have q1: "q \<noteq> i div 2" using less.prems[of 1] by simp
    have "q \<noteq> i div 2 div 2 ^ s" if "1 \<le> s" for s
      using less.prems[of "Suc s"] by (simp add: div_mult2_eq)
    from less.IH[OF lt this]
    have "upd_data cmp (i div 2) (e div 2) (d[i div 2 := pick cmp d (i div 2) e]) ! q =
      d[i div 2 := pick cmp d (i div 2) e] ! q" by blast
    with q1 True show ?thesis by (subst upd_data.simps) simp
  qed
qed

lemma div_pow_less: "1 \<le> (p::nat) \<Longrightarrow> 1 \<le> s \<Longrightarrow> p div 2 ^ s < p"
proof -
  assume p: "1 \<le> p" and s: "1 \<le> s"
  have "(2::nat) ^ 1 \<le> 2 ^ s" using s by (intro power_increasing) auto
  then have "1 < (2::nat) ^ s" by simp
  then show ?thesis using p by (intro div_less_dividend) auto
qed

text \<open>establish: every proper ancestor but slot 0 holds the pick of its children\<close>

lemma upd_data_establish:
  "i < length d \<Longrightarrow> 1 \<le> s \<Longrightarrow> 1 \<le> i div 2 ^ s \<Longrightarrow>
   upd_data cmp i e d ! (i div 2 ^ s) = pick cmp (upd_data cmp i e d) (i div 2 ^ s) (e div 2 ^ (s - 1))"
proof (induction i arbitrary: e d s rule: less_induct)
  case (less i)
  have pos: "0 < i" using less.prems(3) by (cases "i = 0") auto
  then have lt: "i div 2 < i" by simp
  let ?p = "i div 2"
  let ?d1 = "d[?p := pick cmp d ?p e]"
  have u: "upd_data cmp i e d = upd_data cmp ?p (e div 2) ?d1"
    using pos by (subst upd_data.simps) simp
  show ?case
  proof (cases "s = 1")
    case True
    then have p1: "1 \<le> ?p" using less.prems(3) by simp
    have nf: "q \<noteq> ?p div 2 ^ s'" if "1 \<le> s'" "?p \<le> q" for s' q
      using div_pow_less[OF p1 that(1)] that(2) by simp
    have a: "upd_data cmp ?p (e div 2) ?d1 ! q = ?d1 ! q" if "?p \<le> q" for q
      by (rule upd_data_frame) (use nf that in blast)
    have plen: "?p < length d" using less.prems(1) by simp
    have "upd_data cmp i e d ! ?p = ?d1 ! ?p" unfolding u by (rule a) simp
    moreover have "upd_data cmp i e d ! (?p * 2) = d ! (?p * 2)"
      "upd_data cmp i e d ! (?p * 2 + 1) = d ! (?p * 2 + 1)"
      unfolding u using a[of "?p * 2"] a[of "?p * 2 + 1"] p1 by auto
    ultimately show ?thesis
      using True plen by (simp add: pick_def)
  next
    case False
    then obtain s' where s': "s = Suc s'" "1 \<le> s'" using less.prems(2) by (cases s) auto
    have "i div 2 ^ s = ?p div 2 ^ s'" by (simp add: s' div_mult2_eq)
    moreover have "e div 2 ^ (s - 1) = e div 2 div 2 ^ (s' - 1)"
      using s' by (cases s') (auto simp: div_mult2_eq)
    moreover have "1 \<le> ?p div 2 ^ s'" using less.prems(3) by (simp add: s' div_mult2_eq)
    moreover have "?p < length ?d1" using less.prems(1) by simp
    ultimately show ?thesis
      unfolding u using less.IH[OF lt _ s'(2), of ?d1 "e div 2"] by simp
  qed
qed

subsection \<open>Heights and ancestors\<close>

lemma anc_at_height:
  assumes "2 ^ d \<le> c" "c < 2 * 2 ^ d" "s \<le> d"
  shows "at_height d s (c div 2 ^ s)"
proof -
  have split: "(2::nat) ^ d = 2 ^ (d - s) * 2 ^ s"
    using assms(3) by (simp flip: power_add)
  have "2 ^ (d - s) * 2 ^ s div 2 ^ s \<le> c div 2 ^ s"
    using assms(1) unfolding split by (rule div_le_mono)
  then have lo: "2 ^ (d - s) \<le> c div 2 ^ s" by simp
  have "c < (2 * 2 ^ (d - s)) * 2 ^ s" using assms(2) split by simp
  then have hi: "c div 2 ^ s < 2 * 2 ^ (d - s)"
    by (simp add: less_mult_imp_div_less)
  show ?thesis unfolding at_height_def using lo hi assms(3) by simp
qed

lemma anc_zero:
  assumes "c < 2 * 2 ^ d" "d < s"
  shows "c div 2 ^ s = (0::nat)"
proof -
  have "(2::nat) * 2 ^ d = 2 ^ Suc d" by simp
  also have "\<dots> \<le> 2 ^ s" using assms(2) by (intro power_increasing) auto
  finally show ?thesis using assms(1) by simp
qed

lemma at_height_pos: "at_height d s x \<Longrightarrow> 1 \<le> x"
  unfolding at_height_def by (metis le_trans one_le_numeral one_le_power)

lemma at_height_unique:
  assumes "at_height d s x" "at_height d s' x"
  shows "s = s'"
proof -
  have aux: False if a: "at_height d a x" and b: "at_height d b x" and "a < b" for a b
  proof -
    have "Suc (d - b) \<le> d - a" using that unfolding at_height_def by auto
    then have "(2::nat) ^ Suc (d - b) \<le> 2 ^ (d - a)" by (intro power_increasing) auto
    with a b show False unfolding at_height_def by simp
  qed
  show ?thesis using aux[OF assms] aux[OF assms(2,1)] by (cases s s' rule: linorder_cases) auto
qed

lemma at_height_children:
  assumes "at_height d (Suc s) x"
  shows "at_height d s (x * 2)" "at_height d s (x * 2 + 1)"
proof -
  have "d - s = Suc (d - Suc s)" using assms unfolding at_height_def by auto
  then show "at_height d s (x * 2)" "at_height d s (x * 2 + 1)"
    using assms unfolding at_height_def by auto
qed

lemma anc_level:
  assumes "2 ^ d \<le> c" "c < 2 * 2 ^ d" "at_height d s x" "x = c div 2 ^ s'"
  shows "s' = s"
proof (cases "s' \<le> d")
  case True
  from anc_at_height[OF assms(1,2) True] assms(3,4) show ?thesis
    using at_height_unique by blast
next
  case False
  then have "c div 2 ^ s' = 0" using anc_zero[OF assms(2)] by simp
  with at_height_pos[OF assms(3)] assms(4) show ?thesis by simp
qed

text \<open>a node that is not on the path from leaf \<open>c\<close> keeps itself and its children\<close>

lemma off_path:
  assumes c: "2 ^ d \<le> c" "c < 2 * 2 ^ d"
    and x: "at_height d s x" "1 \<le> s" "x \<noteq> c div 2 ^ s"
  shows "x \<noteq> c div 2 ^ s'" "x * 2 \<noteq> c div 2 ^ s'" "x * 2 + 1 \<noteq> c div 2 ^ s'"
proof -
  show "x \<noteq> c div 2 ^ s'"
    using anc_level[OF c x(1)] x(3) by blast
  obtain r where r: "s = Suc r" using x(2) by (cases s) auto
  have ch: "at_height d r (x * 2)" "at_height d r (x * 2 + 1)"
    using at_height_children x(1) unfolding r by blast+
  have "(2::nat) ^ s = 2 ^ r * 2" by (simp add: r)
  then have par: "c div 2 ^ s = c div 2 ^ r div 2" by (simp only: div_mult2_eq)
  show "x * 2 \<noteq> c div 2 ^ s'"
  proof
    assume e: "x * 2 = c div 2 ^ s'"
    then have sr: "s' = r" using anc_level[OF c ch(1)] by blast
    from e have e': "c div 2 ^ r = x * 2" unfolding sr by (rule sym)
    have "c div 2 ^ s = x * 2 div 2" unfolding par e' ..
    also have "\<dots> = x" by simp
    finally show False using x(3) by simp
  qed
  show "x * 2 + 1 \<noteq> c div 2 ^ s'"
  proof
    assume e: "x * 2 + 1 = c div 2 ^ s'"
    then have sr: "s' = r" using anc_level[OF c ch(2)] by blast
    from e have e': "c div 2 ^ r = x * 2 + 1" unfolding sr by (rule sym)
    have "c div 2 ^ s = (x * 2 + 1) div 2" unfolding par e' ..
    also have "\<dots> = x" by simp
    finally show False using x(3) by simp
  qed
qed

lemma pick_cong:
  "d' ! (x * 2) = d ! (x * 2) \<Longrightarrow> d' ! (x * 2 + 1) = d ! (x * 2 + 1) \<Longrightarrow>
   pick cmp d' x e = pick cmp d x e"
  by (simp add: pick_def)

lemma upd_data_node_ok:
  assumes sz: "i < m" "m \<le> 2 ^ dep" "length d = m + 2 ^ dep"
    and js: "j < m" "1 \<le> s" "s \<le> dep"
    and pre: "(2 ^ dep + j) div 2 ^ s = (2 ^ dep + i) div 2 ^ s \<or>
              node_ok cmp d m dep s ((2 ^ dep + j) div 2 ^ s)"
  shows "node_ok cmp (upd_data cmp (2 ^ dep + i) (2 ^ dep + m - 1) d) m dep s
           ((2 ^ dep + j) div 2 ^ s)"
proof (cases "(2 ^ dep + j) div 2 ^ s = (2 ^ dep + i) div 2 ^ s")
  case True
  have "at_height dep s ((2 ^ dep + i) div 2 ^ s)"
    using sz js by (intro anc_at_height) auto
  then have "1 \<le> (2 ^ dep + i) div 2 ^ s" by (rule at_height_pos)
  from upd_data_establish[OF _ js(2) this, of d cmp "2 ^ dep + m - 1"] sz True
  show ?thesis by (simp add: node_ok_def)
next
  case False
  let ?x = "(2 ^ dep + j) div 2 ^ s"
  let ?c = "2 ^ dep + i"
  let ?d' = "upd_data cmp ?c (2 ^ dep + m - 1) d"
  have c: "2 ^ dep \<le> ?c" "?c < 2 * 2 ^ dep" using sz by auto
  have x: "at_height dep s ?x" using sz js by (intro anc_at_height) auto
  note op = off_path[OF c x js(2) False]
  have 1: "?d' ! ?x = d ! ?x"
    by (rule upd_data_frame) (rule op(1))
  have 2: "?d' ! (?x * 2) = d ! (?x * 2)"
    by (rule upd_data_frame) (rule op(2))
  have 3: "?d' ! (?x * 2 + 1) = d ! (?x * 2 + 1)"
    by (rule upd_data_frame) (rule op(3))
  from pre False have "d ! ?x = pick cmp d ?x ((2 ^ dep + m - 1) div 2 ^ (s - 1))"
    by (simp add: node_ok_def)
  then show ?thesis
    unfolding node_ok_def 1 pick_cong[OF 2 3] .
qed

subsection \<open>update on a tree of the right shape\<close>

lemma extends_refl: "extends t t"
  unfolding extends_def by simp

lemma extends_trans: "extends t t' \<Longrightarrow> extends t' t'' \<Longrightarrow> extends t t''"
  unfolding extends_def by auto

lemma extends_trace_ok: "extends t t' \<Longrightarrow> trace_ok t \<Longrightarrow> trace_ok t'"
  unfolding extends_def trace_ok_def by auto

lemma extends_step:
  "length d = length (data_of t) \<Longrightarrow> \<forall>a\<in>set tr. slot a < length (data_of t) \<Longrightarrow>
   extends t (t\<lparr>data_of := d, trace_of := trace_of t @ tr\<rparr>)"
  unfolding extends_def by simp

lemma shaped_nth:
  "shaped cmp xs dep t \<Longrightarrow> j < m_of t \<Longrightarrow> data_of t ! (2 ^ dep + j) = xs ! j"
  unfolding shaped_def elements_def by (metis nth_take nth_drop add.commute le_add2 less_or_eq_imp_le)

lemma elements_eqI:
  assumes "length d = m + n" "length xs = m" "\<And>j. j < m \<Longrightarrow> d ! (n + j) = xs ! j"
  shows "take m (drop n d) = xs"
  using assms by (intro nth_equalityI) auto

lemma upd_data_leaf:
  assumes "i < 2 ^ dep" "2 ^ dep \<le> q"
  shows "upd_data cmp (2 ^ dep + i) e d ! q = d ! q"
proof (rule upd_data_frame)
  fix s :: nat
  assume s: "1 \<le> s"
  have "(2 ^ dep + i) div 2 ^ s \<le> (2 ^ dep + i) div 2"
    using s by (cases s) (auto simp: div_mult2_eq div_le_dividend)
  also have "\<dots> < 2 ^ dep" using assms(1) by simp
  finally show "q \<noteq> (2 ^ dep + i) div 2 ^ s" using assms(2) by simp
qed

lemma set_leaf_simply_eq:
  assumes "i < m_of t" "length (data_of t) = m_of t + n_of t"
  shows "set_leaf_simply i v t =
           Inr (t\<lparr>data_of := (data_of t)[n_of t + i := v],
                  trace_of := trace_of t @ [Wr (n_of t + i)]\<rparr>)"
  using assms unfolding set_leaf_simply_def wr_def by (simp add: add.commute)

lemma update_shaped:
  assumes "shaped cmp xs dep t" "i < m_of t"
  shows "\<exists>t'. update i t = Inr t' \<and> shaped cmp xs dep t' \<and>
           data_of t' = upd_data cmp (2 ^ dep + i) (2 ^ dep + m_of t - 1) (data_of t) \<and>
           extends t t'"
proof -
  let ?c = "2 ^ dep + i" and ?e = "2 ^ dep + m_of t - 1"
  have sz: "?c < length (data_of t)" "?e < length (data_of t)" "compare_of t = Some cmp"
    using assms unfolding shaped_def by auto
  from update_loop_eq[OF sz] obtain tr where
    tr: "\<forall>a\<in>set tr. slot a < length (data_of t)"
    and r: "update_loop ?c ?e t =
        Inr (t\<lparr>data_of := upd_data cmp ?c ?e (data_of t), trace_of := trace_of t @ tr\<rparr>)"
    (is "_ = Inr ?t'")
    by blast
  have u: "update i t = Inr ?t'"
    using assms r unfolding update_def shaped_def by (simp add: add.commute)
  have "take (m_of t) (drop (n_of t) (upd_data cmp ?c ?e (data_of t))) = xs"
  proof (rule elements_eqI)
    show "length (upd_data cmp ?c ?e (data_of t)) = m_of t + n_of t"
      using assms unfolding shaped_def by simp
    show "length xs = m_of t" using assms unfolding shaped_def by simp
    fix j assume "j < m_of t"
    have "upd_data cmp ?c ?e (data_of t) ! (2 ^ dep + j) = data_of t ! (2 ^ dep + j)"
      using assms unfolding shaped_def by (intro upd_data_leaf) auto
    then show "upd_data cmp ?c ?e (data_of t) ! (n_of t + j) = xs ! j"
      using shaped_nth[OF assms(1) \<open>j < m_of t\<close>] assms(1) unfolding shaped_def by simp
  qed
  then have el: "elements ?t' = xs" by (simp add: elements_def)
  have "shaped cmp xs dep ?t'"
    using assms(1) el unfolding shaped_def by auto
  moreover have "extends t ?t'"
    using tr by (intro extends_step) auto
  ultimately show ?thesis using u by auto
qed

lemma update_inv:
  assumes sh: "shaped cmp xs dep t" and i: "i < m_of t"
    and pre: "\<And>j s. j < m_of t \<Longrightarrow> j < b \<Longrightarrow> 1 \<le> s \<Longrightarrow> s \<le> dep \<Longrightarrow>
               (2 ^ dep + j) div 2 ^ s = (2 ^ dep + i) div 2 ^ s \<or>
               node_ok cmp (data_of t) (m_of t) dep s ((2 ^ dep + j) div 2 ^ s)"
  shows "\<exists>t'. update i t = Inr t' \<and> shaped cmp xs dep t' \<and>
           data_of t' = upd_data cmp (2 ^ dep + i) (2 ^ dep + m_of t - 1) (data_of t) \<and>
           extends t t' \<and> nodes_ok cmp (data_of t') (m_of t') dep b"
proof -
  from update_shaped[OF sh i] obtain t' where t':
    "update i t = Inr t'" "shaped cmp xs dep t'"
    "data_of t' = upd_data cmp (2 ^ dep + i) (2 ^ dep + m_of t - 1) (data_of t)"
    "extends t t'" by blast
  have m': "m_of t' = m_of t" using t'(4) unfolding extends_def by simp
  have sz: "i < m_of t" "m_of t \<le> 2 ^ dep" "length (data_of t) = m_of t + 2 ^ dep"
    using sh i unfolding shaped_def by auto
  have "nodes_ok cmp (data_of t') (m_of t') dep b"
    unfolding nodes_ok_def t'(3) m'
    using upd_data_node_ok[OF sz] pre by blast
  with t' show ?thesis by blast
qed

subsection \<open>set_leaf keeps the invariant\<close>

lemma take_drop_update:
  "take m (drop n (d[n + i := v])) = (take m (drop n d))[i := v]"
  by (simp add: drop_update_swap take_update_swap)

lemma set_leaf_inv:
  assumes inv: "well_formed cmp xs dep t" and i: "i < m_of t"
  shows "\<exists>t'. set_leaf i v t = Inr t' \<and> well_formed cmp (xs[i := v]) dep t' \<and> extends t t' \<and>
           data_of t' = upd_data cmp (2 ^ dep + i) (2 ^ dep + m_of t - 1)
                          ((data_of t)[2 ^ dep + i := v])"
proof -
  from inv have sh: "shaped cmp xs dep t" and ok: "nodes_ok cmp (data_of t) (m_of t) dep (m_of t)"
    and tr: "trace_ok t" unfolding well_formed_def by auto
  have n: "n_of t = 2 ^ dep" and len: "length (data_of t) = m_of t + n_of t"
    and mn: "m_of t \<le> 2 ^ dep"
    using sh unfolding shaped_def by auto
  let ?c = "2 ^ dep + i"
  let ?t1 = "t\<lparr>data_of := (data_of t)[?c := v], trace_of := trace_of t @ [Wr ?c]\<rparr>"
  have s1: "set_leaf_simply i v t = Inr ?t1"
    using set_leaf_simply_eq[OF i len] n by simp
  have e1: "extends t ?t1"
    using i len n by (intro extends_step) auto
  have "elements t = xs" using sh unfolding shaped_def by simp
  then have "elements ?t1 = xs[i := v]"
    unfolding elements_def using take_drop_update[of "m_of t" "2 ^ dep" "data_of t" i v] n
    by simp
  then have sh1: "shaped cmp (xs[i := v]) dep ?t1"
    using sh unfolding shaped_def by auto
  have pre: "(2 ^ dep + j) div 2 ^ s = ?c div 2 ^ s \<or>
             node_ok cmp (data_of ?t1) (m_of ?t1) dep s ((2 ^ dep + j) div 2 ^ s)"
    if js: "j < m_of ?t1" "j < m_of ?t1" "1 \<le> s" "s \<le> dep" for j s
  proof (cases "(2 ^ dep + j) div 2 ^ s = ?c div 2 ^ s")
    case False
    let ?x = "(2 ^ dep + j) div 2 ^ s"
    have c: "2 ^ dep \<le> ?c" "?c < 2 * 2 ^ dep" using i mn by auto
    have x: "at_height dep s ?x" using js mn by (intro anc_at_height) auto
    from off_path[OF c x js(3) False, of 0]
    have ne: "?x \<noteq> ?c" "?x * 2 \<noteq> ?c" "?x * 2 + 1 \<noteq> ?c" by simp_all
    have "node_ok cmp (data_of t) (m_of t) dep s ?x"
      using ok js unfolding nodes_ok_def by simp
    then have "node_ok cmp (data_of ?t1) (m_of ?t1) dep s ?x"
      using ne unfolding node_ok_def pick_def by simp
    then show ?thesis ..
  qed simp
  have i1: "i < m_of ?t1" using i by simp
  from update_inv[OF sh1 i1 pre, of "m_of ?t1"] obtain t' where t':
    "update i ?t1 = Inr t'" "shaped cmp (xs[i := v]) dep t'"
    "data_of t' = upd_data cmp ?c (2 ^ dep + m_of ?t1 - 1) (data_of ?t1)"
    "extends ?t1 t'" "nodes_ok cmp (data_of t') (m_of t') dep (m_of ?t1)"
    by blast
  have "set_leaf i v t = Inr t'"
    using i s1 t'(1) unfolding set_leaf_def by simp
  moreover have ex: "extends t t'" using extends_trans[OF e1 t'(4)] .
  moreover have "well_formed cmp (xs[i := v]) dep t'"
    using t'(2,5) extends_trace_ok[OF ex tr] ex unfolding well_formed_def extends_def by simp
  ultimately show ?thesis using t'(3) by auto
qed

subsection \<open>prepare establishes the invariant\<close>

lemma grow_spec:
  "0 < k \<Longrightarrow> \<exists>e. grow k n = Some (k * 2 ^ e) \<and> n \<le> k * 2 ^ e \<and> (e = 0 \<or> k * 2 ^ (e - 1) < n)"
proof (induction "n - k" arbitrary: k rule: less_induct)
  case less
  show ?case
  proof (cases "k < n")
    case False
    then show ?thesis by (intro exI[of _ 0]) (simp add: grow.simps)
  next
    case True
    then have "n - k * 2 < n - k" using less.prems by simp
    from less.hyps[OF this] less.prems obtain e where
      e: "grow (k * 2) n = Some (k * 2 * 2 ^ e)" "n \<le> k * 2 * 2 ^ e"
         "e = 0 \<or> k * 2 * 2 ^ (e - 1) < n"
      by auto
    have "grow k n = Some (k * 2 ^ Suc e)"
      using True e(1) by (subst grow.simps) (simp add: mult.assoc)
    moreover have "n \<le> k * 2 ^ Suc e" using e(2) by (simp add: mult.assoc)
    moreover have "k * 2 ^ (Suc e - 1) < n"
    proof (cases e)
      case 0
      then show ?thesis using True by simp
    next
      case (Suc e')
      then show ?thesis using e(3) by (simp add: mult.assoc)
    qed
    ultimately show ?thesis by blast
  qed
qed

lemma leaf_loop_eq:
  assumes "n \<le> length xs" "m_of t = n" "length (data_of t) = n + n_of t" "i \<le> n"
  shows "\<exists>t'. leaf_loop xs n i t = Inr t' \<and> extends t t' \<and>
           (\<forall>j. i \<le> j \<and> j < n \<longrightarrow> data_of t' ! (n_of t + j) = xs ! j) \<and>
           (\<forall>j < i. data_of t' ! (n_of t + j) = data_of t ! (n_of t + j))"
  using assms
proof (induction "n - i" arbitrary: i t rule: less_induct)
  case less
  show ?case
  proof (cases "i < n")
    case False
    then show ?thesis
      using less.prems(4) by (intro exI[of _ t]) (auto simp: leaf_loop.simps extends_refl)
  next
    case True
    let ?t1 = "t\<lparr>data_of := (data_of t)[n_of t + i := xs ! i],
                   trace_of := trace_of t @ [Wr (n_of t + i)]\<rparr>"
    have s1: "set_leaf_simply i (xs ! i) t = Inr ?t1"
      using True less.prems by (intro set_leaf_simply_eq) auto
    have e1: "extends t ?t1" using True less.prems by (intro extends_step) auto
    have "n - (i + 1) < n - i" using True by simp
    from less.hyps[OF this, of ?t1] less.prems True obtain t' where t':
      "leaf_loop xs n (i + 1) ?t1 = Inr t'" "extends ?t1 t'"
      "\<forall>j. i + 1 \<le> j \<and> j < n \<longrightarrow> data_of t' ! (n_of t + j) = xs ! j"
      "\<forall>j < i + 1. data_of t' ! (n_of t + j) = data_of ?t1 ! (n_of t + j)"
      by auto
    have l: "leaf_loop xs n i t = Inr t'"
      using True less.prems s1 t'(1) by (subst leaf_loop.simps) simp
    have a: "data_of t' ! (n_of t + j) = xs ! j" if "i \<le> j" "j < n" for j
    proof (cases "j = i")
      case True
      then show ?thesis using t'(4) less.prems \<open>i < n\<close> by simp
    next
      case False
      then show ?thesis using t'(3) that by simp
    qed
    have b: "data_of t' ! (n_of t + j) = data_of t ! (n_of t + j)" if "j < i" for j
      using t'(4) that by simp
    show ?thesis
      using l extends_trans[OF e1 t'(2)] a b by blast
  qed
qed

lemma sibling_anc:
  assumes "even c" "1 \<le> s"
  shows "(c + 1) div 2 ^ s = c div (2 ^ s :: nat)"
proof -
  obtain r where r: "s = Suc r" using assms(2) by (cases s) auto
  have "(c + 1) div 2 = c div 2" using assms(1) by auto
  then show ?thesis unfolding r by (simp add: div_mult2_eq)
qed

lemma node_loop_inv:
  assumes "shaped cmp xs dep t" "even i" "nodes_ok cmp (data_of t) (m_of t) dep i"
  shows "\<exists>t'. node_loop (m_of t) i t = Inr t' \<and> shaped cmp xs dep t' \<and> extends t t' \<and>
           nodes_ok cmp (data_of t') (m_of t') dep (m_of t')"
  using assms
proof (induction "m_of t - i" arbitrary: i t rule: less_induct)
  case less
  show ?case
  proof (cases "i < m_of t")
    case False
    have "nodes_ok cmp (data_of t) (m_of t) dep (m_of t)"
      using less.prems(3) False unfolding nodes_ok_def by auto
    then show ?thesis
      using False less.prems(1) by (intro exI[of _ t]) (simp add: node_loop.simps extends_refl)
  next
    case True
    have pre: "(2 ^ dep + j) div 2 ^ s = (2 ^ dep + i) div 2 ^ s \<or>
               node_ok cmp (data_of t) (m_of t) dep s ((2 ^ dep + j) div 2 ^ s)"
      if js: "j < m_of t" "j < i + 2" "1 \<le> s" "s \<le> dep" for j s
    proof -
      consider "j < i" | "j = i" | "j = i + 1" using js(2) by linarith
      then show ?thesis
      proof cases
        case 1
        then show ?thesis using less.prems(3) js unfolding nodes_ok_def by simp
      next
        case 2
        then show ?thesis by simp
      next
        case 3
        have "even ((2::nat) ^ dep + i)" using js(3,4) less.prems(2) by (cases dep) auto
        from sibling_anc[OF this js(3)] 3 show ?thesis by (simp add: add.assoc)
      qed
    qed
    from update_inv[OF less.prems(1) True pre, of "i + 2"] obtain t1 where t1:
      "update i t = Inr t1" "shaped cmp xs dep t1" "extends t t1"
      "nodes_ok cmp (data_of t1) (m_of t1) dep (i + 2)"
      by blast
    have m1: "m_of t1 = m_of t" using t1(3) unfolding extends_def by simp
    have "m_of t1 - (i + 2) < m_of t - i" using True m1 by simp
    from less.hyps[OF this t1(2) _ t1(4)] less.prems(2) obtain t' where t':
      "node_loop (m_of t1) (i + 2) t1 = Inr t'" "shaped cmp xs dep t'" "extends t1 t'"
      "nodes_ok cmp (data_of t') (m_of t') dep (m_of t')"
      by auto
    have "node_loop (m_of t) i t = Inr t'"
      using True t1(1) t'(1) m1 by (subst node_loop.simps) simp
    then show ?thesis using t'(2,4) extends_trans[OF t1(3) t'(3)] by blast
  qed
qed

lemma prepare_inv:
  assumes "0 < n" "n \<le> length xs"
  shows "\<exists>t' dep. prepare dflt (Some xs) n (Some cmp) t = Inr t' \<and>
           shaped cmp (take n xs) dep t' \<and>
           nodes_ok cmp (data_of t') (m_of t') dep (m_of t') \<and>
           (\<exists>tr. trace_of t' = trace_of t @ tr \<and> (\<forall>a\<in>set tr. slot a < length (data_of t')))"
proof -
  from grow_spec[of 1 n] obtain dep where
    g: "grow 1 n = Some (2 ^ dep)" "n \<le> 2 ^ dep" "dep = 0 \<or> 2 ^ (dep - 1) < n"
    by auto
  let ?t3 = "t\<lparr>m_of := n, compare_of := Some cmp, n_of := 2 ^ dep,
               data_of := resize (n + 2 ^ dep) dflt (data_of t)\<rparr>"
  have len3: "length (data_of ?t3) = n + 2 ^ dep"
    by (simp add: resize_def)
  from leaf_loop_eq[OF assms(2), of ?t3 0] len3 obtain t4 where t4:
    "leaf_loop xs n 0 ?t3 = Inr t4" "extends ?t3 t4"
    "\<forall>j. j < n \<longrightarrow> data_of t4 ! (2 ^ dep + j) = xs ! j"
    by auto
  have f4: "m_of t4 = n" "n_of t4 = 2 ^ dep" "compare_of t4 = Some cmp"
    "length (data_of t4) = n + 2 ^ dep"
    using t4(2) len3 unfolding extends_def by simp_all
  have "elements t4 = take n xs"
    unfolding elements_def f4
    by (rule elements_eqI) (use f4 t4(3) assms in auto)
  then have sh4: "shaped cmp (take n xs) dep t4"
    unfolding shaped_def using f4 g assms by simp
  have "nodes_ok cmp (data_of t4) (m_of t4) dep 0"
    unfolding nodes_ok_def by simp
  from node_loop_inv[OF sh4 _ this] obtain t' where t':
    "node_loop (m_of t4) 0 t4 = Inr t'" "shaped cmp (take n xs) dep t'" "extends t4 t'"
    "nodes_ok cmp (data_of t') (m_of t') dep (m_of t')"
    by auto
  have p: "prepare dflt (Some xs) n (Some cmp) t = Inr t'"
    using assms(1) g(1) t4(1) t'(1) f4(1) unfolding prepare_def by (simp add: Let_def)
  have "extends ?t3 t'" using extends_trans[OF t4(2) t'(3)] .
  then have "\<exists>tr. trace_of t' = trace_of t @ tr \<and> (\<forall>a\<in>set tr. slot a < length (data_of t'))"
    unfolding extends_def by simp
  with p t'(2,4) show ?thesis by blast
qed

subsection \<open>The recursion of get_value_sub\<close>

lemma call_geom_root: "call_geom dep dep 1 1 (2 ^ dep)"
  unfolding call_geom_def at_height_def by simp

lemma call_geom_leaf: "call_geom dep 0 index left right \<Longrightarrow> left = right"
  unfolding call_geom_def by simp

lemma call_geom_children:
  assumes "call_geom dep (Suc h) index left right"
  shows "call_geom dep h (index * 2) left ((left + right) div 2)"
    and "call_geom dep h (index * 2 + 1) ((left + right) div 2 + 1) right"
    and "left \<le> (left + right) div 2" and "(left + right) div 2 < right"
proof -
  define n :: nat where "n = 2 ^ dep"
  define p :: nat where "p = 2 ^ h"
  define q where "q = index * p"
  from assms have ah: "at_height dep (Suc h) index"
    and l: "left + n = 2 * q + 1" and r: "right + n = 2 * q + 2 * p"
    unfolding call_geom_def n_def p_def q_def by (auto simp: algebra_simps)
  have pos: "0 < p" unfolding p_def by simp
  have c: "(left + right) div 2 = left + p - 1" using l r pos by arith
  show "left \<le> (left + right) div 2" using c pos by arith
  show "(left + right) div 2 < right" using c l r pos by arith
  have cn: "(left + right) div 2 + n = 2 * q + p" using c l pos by arith
  have "left + n = index * 2 * p + 1" "(left + right) div 2 + n = (index * 2 + 1) * p"
    using l cn unfolding q_def by (auto simp: algebra_simps)
  then show "call_geom dep h (index * 2) left ((left + right) div 2)"
    unfolding call_geom_def n_def p_def using at_height_children(1)[OF ah] by simp
  have "(left + right) div 2 + 1 + n = (index * 2 + 1) * p + 1"
    "right + n = (index * 2 + 1 + 1) * p"
    using r cn unfolding q_def by (auto simp: algebra_simps)
  then show "call_geom dep h (index * 2 + 1) ((left + right) div 2 + 1) right"
    unfolding call_geom_def n_def p_def using at_height_children(2)[OF ah] by simp
qed

lemma inside_mono: "inside dep h F T k \<Longrightarrow> h \<le> h' \<Longrightarrow> inside dep h' F T k"
  unfolding inside_def by (meson le_trans)

lemma inside_pos: "inside dep h F T k \<Longrightarrow> k \<noteq> 0"
  unfolding inside_def using at_height_pos by fastforce

lemma inside_bound:
  assumes "inside dep h F T k" "T \<le> m"
  shows "k < m + 2 ^ dep"
proof -
  from assms(1) obtain h' where h': "(k + 1) * 2 ^ h' \<le> T + 2 ^ dep"
    unfolding inside_def by blast
  have "(k + 1) * 1 \<le> (k + 1) * 2 ^ h'" by (rule mult_le_mono2) simp
  with h' assms(2) show ?thesis by simp
qed

lemma gvs_leaf:
  assumes "call_geom dep 0 index left right"
  shows "gvs cmp d F T index left right = (if right < F \<or> T < left then 0 else index)"
proof -
  have lr: "left = right" using assms by (rule call_geom_leaf)
  have "right < F \<or> T < right \<or> (F \<le> right \<and> right \<le> T)" by arith
  then show ?thesis unfolding lr by (subst gvs.simps) presburger
qed

lemma gvs_geom0:
  assumes "call_geom dep 0 index left right"
  shows "if right < F \<or> T < left then gvs cmp d F T index left right = 0
         else inside dep 0 F T (gvs cmp d F T index left right)"
proof -
  have lr: "left = right" using assms by (rule call_geom_leaf)
  have "inside dep 0 F T index" if "F \<le> left" "right \<le> T"
    unfolding inside_def using assms that unfolding call_geom_def
    by (intro exI[of _ 0]) simp
  then show ?thesis unfolding gvs_leaf[OF assms] using lr by auto
qed

lemma gvs_node:
  assumes "\<not> (right < F \<or> T < left)" "\<not> (F \<le> left \<and> right \<le> T)"
  shows "gvs cmp d F T index left right =
     (let i = gvs cmp d F T (index * 2) left ((left + right) div 2);
          j = gvs cmp d F T (index * 2 + 1) ((left + right) div 2 + 1) right
      in if j = 0 then i else if i = 0 then j
         else if 0 \<ge> cmp (d ! i) (d ! j) then i else j)"
  using assms by (subst gvs.simps) (simp only: if_False Let_def)

lemma gvs_geom:
  assumes "F \<le> T" "call_geom dep h index left right"
  shows "if right < F \<or> T < left then gvs cmp d F T index left right = 0
         else inside dep h F T (gvs cmp d F T index left right)"
  using assms(2)
proof (induction h arbitrary: index left right)
  case 0
  then show ?case by (rule gvs_geom0)
next
  case (Suc h)
  note ch = call_geom_children[OF Suc.prems]
  define c where "c = (left + right) div 2"
  define i where "i = gvs cmp d F T (index * 2) left c"
  define j where "j = gvs cmp d F T (index * 2 + 1) (c + 1) right"
  have IH1: "if c < F \<or> T < left then i = 0 else inside dep h F T i"
    unfolding i_def c_def by (rule Suc.IH[OF ch(1)])
  have IH2: "if right < F \<or> T < c + 1 then j = 0 else inside dep h F T j"
    unfolding j_def c_def by (rule Suc.IH[OF ch(2)])
  show ?case
  proof (cases "right < F \<or> T < left")
    case True
    then show ?thesis by (subst gvs.simps) simp
  next
    case out: False
    show ?thesis
    proof (cases "F \<le> left \<and> right \<le> T")
      case True
      have "inside dep (Suc h) F T index"
        unfolding inside_def using Suc.prems True unfolding call_geom_def
        by (intro exI[of _ "Suc h"]) simp
      moreover have "gvs cmp d F T index left right = index"
        using out True by (subst gvs.simps) simp
      ultimately show ?thesis using out by simp
    next
      case part: False
      have g: "gvs cmp d F T index left right =
        (if j = 0 then i else if i = 0 then j else if 0 \<ge> cmp (d ! i) (d ! j) then i else j)"
        unfolding gvs_node[OF out part] i_def j_def c_def Let_def ..
      have cb: "left \<le> c" "c < right" using ch(3,4) unfolding c_def by auto
      consider (l) "T < c + 1" | (r) "c < F" | (both) "F \<le> c" "c + 1 \<le> T"
        by linarith
      then have "inside dep (Suc h) F T (gvs cmp d F T index left right)"
      proof cases
        case l
        then have j0: "j = 0" using IH2 by simp
        have "\<not> (c < F \<or> T < left)" using l out assms(1) by linarith
        then have "inside dep h F T i" using IH1 by simp
        then show ?thesis unfolding g using j0 inside_mono[of dep h F T i "Suc h"] by simp
      next
        case r
        then have i0: "i = 0" using IH1 by simp
        have "\<not> (right < F \<or> T < c + 1)" using r out assms(1) by linarith
        then have jn: "inside dep h F T j" using IH2 by simp
        then have "j \<noteq> 0" by (rule inside_pos)
        then show ?thesis unfolding g using i0 jn inside_mono[of dep h F T j "Suc h"] by simp
      next
        case both
        have "\<not> (c < F \<or> T < left)" using both out cb by linarith
        then have ii: "inside dep h F T i" using IH1 by simp
        have "\<not> (right < F \<or> T < c + 1)" using both out cb by linarith
        then have jj: "inside dep h F T j" using IH2 by simp
        have "inside dep (Suc h) F T i" "inside dep (Suc h) F T j"
          using ii jj inside_mono[of dep h F T _ "Suc h"] by auto
        moreover have "i \<noteq> 0" "j \<noteq> 0" using ii jj inside_pos by blast+
        ultimately show ?thesis unfolding g by simp
      qed
      then show ?thesis using out by simp
    qed
  qed
qed

lemma gvs_nonzero:
  assumes "F \<le> T" "call_geom dep h index left right" "gvs cmp d F T index left right \<noteq> 0"
  shows "inside dep h F T (gvs cmp d F T index left right)"
  using gvs_geom[OF assms(1,2), of cmp d] assms(3) by (simp split: if_splits)

lemma gvs_bound:
  assumes "F \<le> T" "T \<le> m" "call_geom dep h index left right"
    "gvs cmp d F T index left right \<noteq> 0"
  shows "gvs cmp d F T index left right < m + 2 ^ dep"
  using inside_bound[OF gvs_nonzero[OF assms(1,3,4)] assms(2)] .

lemma get_value_sub_leaf:
  assumes "call_geom dep 0 index left right"
  shows "get_value_sub F T index left right t =
           Inr (if right < F \<or> T < left then 0 else index, t)"
proof -
  have lr: "left = right" using assms by (rule call_geom_leaf)
  have "right < F \<or> T < right \<or> (F \<le> right \<and> right \<le> T)" by arith
  then show ?thesis unfolding lr by (subst get_value_sub.simps) auto
qed

lemma get_value_sub_node:
  assumes "\<not> (right < F \<or> T < left)" "\<not> (F \<le> left \<and> right \<le> T)"
  shows "get_value_sub F T index left right t =
     (case get_value_sub F T (index * 2) left ((left + right) div 2) t of Inl x \<Rightarrow> Inl x
      | Inr (i, t1) \<Rightarrow>
        (case get_value_sub F T (index * 2 + 1) ((left + right) div 2 + 1) right t1 of
           Inl x \<Rightarrow> Inl x
         | Inr (j, t2) \<Rightarrow>
             if j = 0 then Inr (i, t2)
             else if i = 0 then Inr (j, t2)
             else
               (case rd i t2 of Inl x \<Rightarrow> Inl x
                | Inr (a, t3) \<Rightarrow>
                  (case rd j t3 of Inl x \<Rightarrow> Inl x
                   | Inr (b, t4) \<Rightarrow>
                     (case call_compare t4 a b of Inl x \<Rightarrow> Inl x
                      | Inr c \<Rightarrow> if 0 \<ge> c then Inr (i, t4) else Inr (j, t4))))))"
  using assms by (subst get_value_sub.simps) (simp only: if_False Let_def)

lemma get_value_sub_eq:
  assumes "F \<le> T" "T \<le> m"
  shows "compare_of t = Some cmp \<Longrightarrow> length (data_of t) = m + 2 ^ dep \<Longrightarrow>
         call_geom dep h index left right \<Longrightarrow>
         \<exists>t'. get_value_sub F T index left right t =
                Inr (gvs cmp (data_of t) F T index left right, t') \<and>
              extends t t' \<and> data_of t' = data_of t"
proof (induction h arbitrary: index left right t)
  case 0
  show ?case
    unfolding get_value_sub_leaf[OF 0(3)] gvs_leaf[OF 0(3)]
    by (intro exI[of _ t]) (simp add: extends_refl)
next
  case (Suc h)
  note ch = call_geom_children[OF Suc.prems(3)]
  define c where "c = (left + right) div 2"
  define d where "d = data_of t"
  define i where "i = gvs cmp d F T (index * 2) left c"
  define j where "j = gvs cmp d F T (index * 2 + 1) (c + 1) right"
  show ?case
  proof (cases "right < F \<or> T < left")
    case True
    then show ?thesis
      by (intro exI[of _ t]) (simp add: get_value_sub.simps gvs.simps extends_refl)
  next
    case out: False
    show ?thesis
    proof (cases "F \<le> left \<and> right \<le> T")
      case True
      then show ?thesis using out
        by (intro exI[of _ t]) (simp add: get_value_sub.simps gvs.simps extends_refl)
    next
      case part: False
      from Suc.IH[OF Suc.prems(1,2) ch(1)] obtain t1 where t1:
        "get_value_sub F T (index * 2) left c t = Inr (i, t1)" "extends t t1" "data_of t1 = d"
        unfolding i_def c_def d_def by blast
      have p1: "compare_of t1 = Some cmp" "length (data_of t1) = m + 2 ^ dep"
        using t1(2,3) Suc.prems(1,2) unfolding extends_def d_def by simp_all
      from Suc.IH[OF p1 ch(2)] obtain t2 where t2:
        "get_value_sub F T (index * 2 + 1) (c + 1) right t1 = Inr (j, t2)" "extends t1 t2"
        "data_of t2 = d"
        unfolding j_def c_def t1(3) by blast
      have e2: "extends t t2" using extends_trans[OF t1(2) t2(2)] .
      have g: "gvs cmp d F T index left right =
        (if j = 0 then i else if i = 0 then j else if 0 \<ge> cmp (d ! i) (d ! j) then i else j)"
        unfolding gvs_node[OF out part] i_def j_def c_def Let_def ..
      have s: "get_value_sub F T index left right t =
        (if j = 0 then Inr (i, t2)
         else if i = 0 then Inr (j, t2)
         else
           (case rd i t2 of Inl x \<Rightarrow> Inl x
            | Inr (a, t3) \<Rightarrow>
              (case rd j t3 of Inl x \<Rightarrow> Inl x
               | Inr (b, t4) \<Rightarrow>
                 (case call_compare t4 a b of Inl x \<Rightarrow> Inl x
                  | Inr c \<Rightarrow> if 0 \<ge> c then Inr (i, t4) else Inr (j, t4)))))"
        unfolding get_value_sub_node[OF out part] using t1(1) t2(1)
        by (simp add: c_def)
      show ?thesis
      proof (cases "j = 0 \<or> i = 0")
        case True
        then show ?thesis
          unfolding s g d_def[symmetric] using e2 t2(3) by (intro exI[of _ t2]) auto
      next
        case False
        then have ij: "i \<noteq> 0" "j \<noteq> 0" by auto
        have ib: "i < m + 2 ^ dep"
          using gvs_bound[OF assms ch(1), of cmp d] ij(1) unfolding i_def c_def by simp
        have jb: "j < m + 2 ^ dep"
          using gvs_bound[OF assms ch(2), of cmp d] ij(2) unfolding j_def c_def by simp
        let ?t4 = "t2\<lparr>trace_of := trace_of t2 @ [Rd i, Rd j]\<rparr>"
        have len2: "length (data_of t2) = m + 2 ^ dep" "compare_of t2 = Some cmp"
          using e2 Suc.prems(1,2) unfolding extends_def by simp_all
        have s': "get_value_sub F T index left right t =
            Inr (if 0 \<ge> cmp (d ! i) (d ! j) then i else j, ?t4)"
          unfolding s using ij ib jb len2 t2(3)
          by (simp add: rd_def call_compare_def)
        have "extends t2 ?t4"
          using extends_step[of "data_of t2" t2 "[Rd i, Rd j]"] ib jb len2 by simp
        then have "extends t ?t4" using extends_trans[OF e2] by blast
        then show ?thesis
          unfolding s' g d_def[symmetric] using ij t2(3) by (intro exI[of _ ?t4]) auto
      qed
    qed
  qed
qed

subsection \<open>The value of a query\<close>

lemma take1_drop: "k < length d \<Longrightarrow> take (Suc 0) (drop k d) = [d ! k]"
  by (simp add: take_Suc hd_drop_conv_nth)

lemma seg_single: "1 \<le> a \<Longrightarrow> n + a - 1 < length d \<Longrightarrow> seg n d a a = [d ! (n + a - 1)]"
  unfolding seg_def using take1_drop[of "n + a - 1" d] by simp

lemma seg_append:
  assumes "1 \<le> a" "a \<le> c" "c < b"
  shows "seg n d a c @ seg n d (c + 1) b = seg n d a b"
proof -
  have 1: "b + 1 - a = (c + 1 - a) + (b + 1 - (c + 1))" using assms by simp
  have 2: "c + 1 - a + (n + a - 1) = n + (c + 1) - 1" using assms by simp
  show ?thesis unfolding seg_def 1 take_add drop_drop 2 ..
qed

lemma seg_nonempty: "a \<le> b \<Longrightarrow> n + a - 1 < length d \<Longrightarrow> seg n d a b \<noteq> []"
  unfolding seg_def by simp

lemma at_height_first_leaf:
  assumes "at_height dep s x"
  shows "2 ^ dep \<le> x * 2 ^ s"
proof -
  have split: "(2::nat) ^ dep = 2 ^ (dep - s) * 2 ^ s"
    using assms unfolding at_height_def by (simp flip: power_add)
  have "2 ^ (dep - s) * 2 ^ s \<le> x * 2 ^ s"
    using assms unfolding at_height_def by (intro mult_le_mono1) simp
  then show ?thesis using split by simp
qed

lemma node_ok_at:
  assumes ok: "nodes_ok cmp d m dep m" and x: "at_height dep s x" "1 \<le> s"
    and v: "x * 2 ^ s < m + 2 ^ dep"
  shows "node_ok cmp d m dep s x"
proof -
  have lo: "2 ^ dep \<le> x * 2 ^ s" using x(1) by (rule at_height_first_leaf)
  define j where "j = x * 2 ^ s - 2 ^ dep"
  have j: "j < m" "2 ^ dep + j = x * 2 ^ s" using lo v unfolding j_def by auto
  have "(2 ^ dep + j) div 2 ^ s = x" unfolding j(2) by simp
  moreover have "s \<le> dep" using x(1) unfolding at_height_def by simp
  ultimately show ?thesis using ok j(1) x(2) unfolding nodes_ok_def by blast
qed

lemma better_pick:
  "x * 2 + 1 \<le> e \<Longrightarrow> pick cmp d x e = better cmp (d ! (x * 2)) (d ! (x * 2 + 1))"
  unfolding pick_def better_def by simp

lemma full_node:
  assumes tp: "total_preorder cmp" and ok: "nodes_ok cmp d m dep m"
    and len: "length d = m + 2 ^ dep" and m: "0 < m"
  shows "at_height dep h x \<Longrightarrow> (x + 1) * 2 ^ h \<le> m + 2 ^ dep \<Longrightarrow>
         d ! x = best cmp (take (2 ^ h) (drop (x * 2 ^ h) d))"
proof (induction h arbitrary: x)
  case 0
  then have "x < length d" using len by simp
  then show ?case using take1_drop[of x d] by simp
next
  case (Suc h)
  define p :: nat where "p = 2 ^ h"
  have pos: "0 < p" unfolding p_def by simp
  have xp: "(x * 2 + 1) * p = x * 2 * p + p" by (simp add: algebra_simps)
  have full: "(x * 2 + 1 + 1) * p \<le> m + 2 ^ dep"
    using Suc.prems(2) unfolding p_def by (simp add: algebra_simps)
  then have half: "(x * 2 + 1) * p + p \<le> m + 2 ^ dep" by (simp add: algebra_simps)
  have ch: "at_height dep h (x * 2)" "at_height dep h (x * 2 + 1)"
    using at_height_children[OF Suc.prems(1)] by auto
  have l: "d ! (x * 2) = best cmp (take p (drop (x * 2 * p) d))"
    unfolding p_def using half pos by (intro Suc.IH[OF ch(1)]) (simp add: p_def)
  have r: "d ! (x * 2 + 1) = best cmp (take p (drop ((x * 2 + 1) * p) d))"
    unfolding p_def using full by (intro Suc.IH[OF ch(2)]) (simp add: p_def)
  have "x * 2 * p < m + 2 ^ dep" using half pos unfolding xp by linarith
  then have "x * 2 ^ Suc h < m + 2 ^ dep" unfolding p_def by (simp add: mult.assoc)
  from node_ok_at[OF ok Suc.prems(1) _ this]
  have n: "d ! x = pick cmp d x ((2 ^ dep + m - 1) div 2 ^ h)"
    unfolding node_ok_def by simp
  have "(x * 2 + 1) * p \<le> 2 ^ dep + m - 1" using half pos unfolding xp by linarith
  then have "x * 2 + 1 \<le> (2 ^ dep + m - 1) div 2 ^ h"
    unfolding p_def by (simp add: less_eq_div_iff_mult_less_eq)
  from better_pick[OF this] n
  have v: "d ! x = better cmp (d ! (x * 2)) (d ! (x * 2 + 1))" by simp
  have ne: "take p (drop (x * 2 * p) d) \<noteq> []" "take p (drop ((x * 2 + 1) * p) d) \<noteq> []"
    using half pos len unfolding xp by auto
  have sp: "take (2 ^ Suc h) (drop (x * 2 ^ Suc h) d) =
      take p (drop (x * 2 * p) d) @ take p (drop ((x * 2 + 1) * p) d)"
  proof -
    have 1: "(2::nat) ^ Suc h = p + p" "x * 2 ^ Suc h = x * 2 * p" unfolding p_def by simp_all
    have 2: "p + x * 2 * p = (x * 2 + 1) * p" by (simp add: algebra_simps)
    have "take (2 ^ Suc h) (drop (x * 2 ^ Suc h) d) = take (2 ^ Suc h) (drop (x * 2 * p) d)"
      by (simp only: 1(2))
    also have "\<dots> = take (p + p) (drop (x * 2 * p) d)"
      by (simp only: 1(1))
    also have "\<dots> = take p (drop (x * 2 * p) d) @ take p (drop (p + x * 2 * p) d)"
      by (simp only: take_add drop_drop)
    finally show ?thesis unfolding 2 .
  qed
  show ?case unfolding sp best_append[OF tp ne] v l r ..
qed

text \<open>The value of a node whose leaves are all valid is the value of one of these leaves.\<close>

lemma full_node_mem:
  assumes ok: "nodes_ok cmp d m dep m"
  shows "at_height dep h x \<Longrightarrow> (x + 1) * 2 ^ h \<le> m + 2 ^ dep \<Longrightarrow>
         \<exists>l. x * 2 ^ h \<le> l \<and> l < (x + 1) * 2 ^ h \<and> d ! x = d ! l"
proof (induction h arbitrary: x)
  case 0
  show ?case by (rule exI[of _ x]) simp
next
  case (Suc h)
  define p :: nat where "p = 2 ^ h"
  have pos: "0 < p" unfolding p_def by simp
  have xp: "(x * 2 + 1) * p = x * 2 * p + p" "(x * 2 + 1 + 1) * p = x * 2 * p + p + p"
    "x * 2 ^ Suc h = x * 2 * p" "(x + 1) * 2 ^ Suc h = x * 2 * p + p + p"
    unfolding p_def by (simp_all add: algebra_simps)
  have full: "x * 2 * p + p + p \<le> m + 2 ^ dep" using Suc.prems(2) unfolding xp .
  have ch: "at_height dep h (x * 2)" "at_height dep h (x * 2 + 1)"
    using at_height_children[OF Suc.prems(1)] by auto
  from Suc.IH[OF ch(1)] full pos obtain l1 where
    l1: "x * 2 * p \<le> l1" "l1 < x * 2 * p + p" "d ! (x * 2) = d ! l1"
    unfolding p_def[symmetric] xp by auto
  from Suc.IH[OF ch(2)] full obtain l2 where
    l2: "x * 2 * p + p \<le> l2" "l2 < x * 2 * p + p + p" "d ! (x * 2 + 1) = d ! l2"
    unfolding p_def[symmetric] xp by auto
  have "x * 2 ^ Suc h < m + 2 ^ dep" using full pos unfolding xp by linarith
  from node_ok_at[OF ok Suc.prems(1) _ this]
  have "d ! x = pick cmp d x ((2 ^ dep + m - 1) div 2 ^ h)"
    unfolding node_ok_def by simp
  then have "d ! x = d ! (x * 2) \<or> d ! x = d ! (x * 2 + 1)"
    unfolding pick_def by (simp split: if_splits)
  then show ?case
  proof
    assume "d ! x = d ! (x * 2)"
    then show ?thesis unfolding xp using l1 pos by (intro exI[of _ l1]) simp
  next
    assume "d ! x = d ! (x * 2 + 1)"
    then show ?thesis unfolding xp using l2 pos by (intro exI[of _ l2]) simp
  qed
qed

lemma inside_value:
  assumes sh: "shaped cmp xs dep t" and ok: "nodes_ok cmp (data_of t) (m_of t) dep (m_of t)"
    and ft: "to < m_of t" and ins: "inside dep h (from + 1) (to + 1) k"
  shows "\<exists>j. from \<le> j \<and> j \<le> to \<and> data_of t ! k = xs ! j"
proof -
  from ins obtain h' where h': "at_height dep h' k"
    "from + 1 + 2 ^ dep \<le> k * 2 ^ h' + 1" "(k + 1) * 2 ^ h' \<le> to + 1 + 2 ^ dep"
    unfolding inside_def by blast
  have "(k + 1) * 2 ^ h' \<le> m_of t + 2 ^ dep" using h'(3) ft by simp
  from full_node_mem[OF ok h'(1) this] obtain l where
    l: "k * 2 ^ h' \<le> l" "l < (k + 1) * 2 ^ h'" "data_of t ! k = data_of t ! l"
    by blast
  define j where "j = l - 2 ^ dep"
  have j: "l = 2 ^ dep + j" "from \<le> j" "j \<le> to" using l(1,2) h'(2,3) unfolding j_def by auto
  have "data_of t ! (2 ^ dep + j) = xs ! j"
    using j(3) ft by (intro shaped_nth[OF sh]) simp
  then show ?thesis using j l(3) by auto
qed

lemma gvs_value:
  assumes tp: "total_preorder cmp" and ok: "nodes_ok cmp d m dep m"
    and len: "length d = m + 2 ^ dep" and FT: "1 \<le> F" "F \<le> T" "T \<le> m"
  shows "call_geom dep h index left right \<Longrightarrow> \<not> (right < F \<or> T < left) \<Longrightarrow>
         d ! gvs cmp d F T index left right = best cmp (seg (2 ^ dep) d (max left F) (min right T))"
proof (induction h arbitrary: index left right)
  case 0
  then have lr: "left = right" using call_geom_leaf by blast
  have "2 ^ dep \<le> index * 2 ^ 0"
    using 0(1) unfolding call_geom_def by (intro at_height_first_leaf) simp
  moreover have "left + 2 ^ dep = index + 1"
    using 0(1) unfolding call_geom_def by simp
  ultimately have ix: "2 ^ dep + left - 1 = index" "1 \<le> left" by simp_all
  have "index < length d" using ix 0(2) FT len lr by linarith
  then have "seg (2 ^ dep) d left left = [d ! index]"
    using seg_single[of left "2 ^ dep" d] ix by simp
  moreover have "max left F = left" "min right T = left" using 0(2) lr by auto
  ultimately show ?case using 0(2) gvs_leaf[OF 0(1), of cmp d F T] lr by simp
next
  case (Suc h)
  note ch = call_geom_children[OF Suc.prems(1)]
  note out = Suc.prems(2)
  define c where "c = (left + right) div 2"
  define i where "i = gvs cmp d F T (index * 2) left c"
  define j where "j = gvs cmp d F T (index * 2 + 1) (c + 1) right"
  have cb: "left \<le> c" "c < right" using ch(3,4) unfolding c_def by auto
  have "2 ^ dep \<le> index * 2 ^ Suc h"
    using Suc.prems(1) unfolding call_geom_def by (intro at_height_first_leaf) simp
  moreover have "left + 2 ^ dep = index * 2 ^ Suc h + 1"
    using Suc.prems(1) unfolding call_geom_def by simp
  ultimately have l1: "1 \<le> left" by linarith
  show ?case
  proof (cases "F \<le> left \<and> right \<le> T")
    case True
    have g: "gvs cmp d F T index left right = index"
      using out True by (subst gvs.simps) simp
    have mm: "max left F = left" "min right T = right" using True by auto
    have geo: "left + 2 ^ dep = index * 2 ^ Suc h + 1" "right + 2 ^ dep = (index + 1) * 2 ^ Suc h"
      "at_height dep (Suc h) index"
      using Suc.prems(1) unfolding call_geom_def by auto
    have a: "2 ^ dep + left - 1 = index * 2 ^ Suc h" using geo(1) by simp
    have b: "right + 1 - left = 2 ^ Suc h" using geo(1,2) by (simp add: algebra_simps)
    have "(index + 1) * 2 ^ Suc h \<le> m + 2 ^ dep" using geo(2) True FT by simp
    from full_node[OF tp ok len _ geo(3) this] FT
    show ?thesis unfolding g mm seg_def a b by simp
  next
    case part: False
    have g: "gvs cmp d F T index left right =
      (if j = 0 then i else if i = 0 then j else if 0 \<ge> cmp (d ! i) (d ! j) then i else j)"
      unfolding gvs_node[OF out part] i_def j_def c_def Let_def ..
    have Z1: "c < F \<or> T < left \<Longrightarrow> i = 0"
      using gvs_geom[OF FT(2) ch(1), of cmp d] unfolding i_def c_def by simp
    have Z2: "right < F \<or> T < c + 1 \<Longrightarrow> j = 0"
      using gvs_geom[OF FT(2) ch(2), of cmp d] unfolding j_def c_def by simp
    have N1: "\<not> (c < F \<or> T < left) \<Longrightarrow> i \<noteq> 0"
      using gvs_geom[OF FT(2) ch(1), of cmp d] inside_pos unfolding i_def c_def by auto
    have N2: "\<not> (right < F \<or> T < c + 1) \<Longrightarrow> j \<noteq> 0"
      using gvs_geom[OF FT(2) ch(2), of cmp d] inside_pos unfolding j_def c_def by auto
    have IH1: "\<not> (c < F \<or> T < left) \<Longrightarrow>
        d ! i = best cmp (seg (2 ^ dep) d (max left F) (min c T))"
      unfolding i_def c_def by (rule Suc.IH[OF ch(1)])
    have IH2: "\<not> (right < F \<or> T < c + 1) \<Longrightarrow>
        d ! j = best cmp (seg (2 ^ dep) d (max (c + 1) F) (min right T))"
      unfolding j_def c_def by (rule Suc.IH[OF ch(2)])
    consider (l) "T < c + 1" | (r) "c < F" | (both) "F \<le> c" "c + 1 \<le> T"
      by linarith
    then show ?thesis
    proof cases
      case l
      have n: "\<not> (c < F \<or> T < left)" using l out FT by linarith
      have "min c T = min right T" using l cb by simp
      then show ?thesis unfolding g using Z2 l IH1[OF n] by simp
    next
      case r
      have n: "\<not> (right < F \<or> T < c + 1)" using r out FT by linarith
      have "max (c + 1) F = max left F" using r cb by simp
      then show ?thesis unfolding g using Z1 r N2[OF n] IH2[OF n] by simp
    next
      case both
      have n1: "\<not> (c < F \<or> T < left)" using both out cb by linarith
      have n2: "\<not> (right < F \<or> T < c + 1)" using both out cb by linarith
      have mm: "min c T = c" "max (c + 1) F = c + 1" using both by auto
      have b: "(if 0 \<ge> cmp (d ! i) (d ! j) then d ! i else d ! j) = better cmp (d ! i) (d ! j)"
        unfolding better_def by auto
      have a1: "1 \<le> max left F" "max left F \<le> c" "c < min right T"
        using l1 both cb by auto
      have "2 ^ dep + max left F - 1 < length d" "2 ^ dep + (c + 1) - 1 < length d"
        using a1 len FT both by simp_all
      then have ne: "seg (2 ^ dep) d (max left F) c \<noteq> []"
        "seg (2 ^ dep) d (c + 1) (min right T) \<noteq> []"
        using a1 seg_nonempty[of "max left F" c "2 ^ dep" d]
          seg_nonempty[of "c + 1" "min right T" "2 ^ dep" d] by simp_all
      have "d ! gvs cmp d F T index left right = better cmp (d ! i) (d ! j)"
        unfolding g better_def using N1[OF n1] N2[OF n2] by auto
      also have "\<dots> = best cmp (seg (2 ^ dep) d (max left F) c @ seg (2 ^ dep) d (c + 1) (min right T))"
        unfolding best_append[OF tp ne] using IH1[OF n1] IH2[OF n2] mm by simp
      finally show ?thesis unfolding seg_append[OF a1] .
    qed
  qed
qed

subsection \<open>Ready trees\<close>

lemma inv_extends:
  "well_formed cmp xs dep t \<Longrightarrow> extends t t' \<Longrightarrow> data_of t' = data_of t \<Longrightarrow> well_formed cmp xs dep t'"
  using extends_trace_ok[of t t']
  unfolding well_formed_def shaped_def extends_def elements_def by auto

lemma get_value_eq:
  assumes inv: "well_formed cmp xs dep t" and ft: "from \<le> to" "to < m_of t"
  shows "\<exists>t'. get_value from to t = Inr (data_of t ! query_index cmp dep (data_of t) from to, t') \<and>
           extends t t' \<and> data_of t' = data_of t"
    and "inside dep dep (from + 1) (to + 1) (query_index cmp dep (data_of t) from to)"
proof -
  let ?k = "query_index cmp dep (data_of t) from to"
  from inv have sh: "shaped cmp xs dep t" unfolding well_formed_def by simp
  then have f: "compare_of t = Some cmp" "length (data_of t) = m_of t + 2 ^ dep" "n_of t = 2 ^ dep"
    unfolding shaped_def by auto
  have FT: "from + 1 \<le> to + 1" "to + 1 \<le> m_of t" using ft by auto
  from get_value_sub_eq[OF FT f(1,2) call_geom_root] obtain t1 where t1:
    "get_value_sub (from + 1) (to + 1) 1 1 (2 ^ dep) t = Inr (?k, t1)"
    "extends t t1" "data_of t1 = data_of t"
    unfolding query_index_def by blast
  have "\<not> (2 ^ dep < from + 1 \<or> to + 1 < 1)"
    using ft sh unfolding shaped_def by auto
  with gvs_geom[OF FT(1) call_geom_root, of dep cmp "data_of t"]
  show ins: "inside dep dep (from + 1) (to + 1) ?k"
    unfolding query_index_def by simp
  then have k0: "?k \<noteq> 0" by (rule inside_pos)
  have kb: "?k < length (data_of t1)"
    using inside_bound[OF ins FT(2)] f(2) t1(3) by simp
  let ?t' = "t1\<lparr>trace_of := trace_of t1 @ [Rd ?k]\<rparr>"
  have "get_value from to t = Inr (data_of t ! ?k, ?t')"
    using ft f(3) t1(1,3) k0 kb unfolding get_value_def rd_def by simp
  moreover have "extends t1 ?t'"
    using extends_step[of "data_of t1" t1 "[Rd ?k]"] kb by simp
  then have "extends t ?t'" using extends_trans[OF t1(2)] by blast
  ultimately show "\<exists>t'. get_value from to t = Inr (data_of t ! ?k, t') \<and>
           extends t t' \<and> data_of t' = data_of t"
    using t1(3) by (intro exI[of _ ?t']) simp
qed

lemma prepare_pos: "prepare dflt data n c t = Inr t' \<Longrightarrow> 0 < n"
  unfolding prepare_def by (auto split: option.splits if_splits)

lemma set_leaf_pre: "set_leaf i v t = Inr t' \<Longrightarrow> i < m_of t"
  unfolding set_leaf_def by (auto split: if_splits)

lemma get_value_pre: "get_value from to t = Inr r \<Longrightarrow> from \<le> to \<and> to < m_of t"
  unfolding get_value_def by (auto split: if_splits)

lemma trace_ok_new: "trace_ok new_SegmentTree"
  unfolding trace_ok_def new_SegmentTree_def by simp

lemma ready_inv: "ready cmp s t \<Longrightarrow> \<exists>dep. well_formed cmp s dep t"
proof (induction rule: ready.induct)
  case (built n xs dflt cmp t)
  from prepare_inv[OF prepare_pos[OF built(2)] built(1), of dflt cmp new_SegmentTree] built(2)
  obtain dep tr where
    "shaped cmp (take n xs) dep t" "nodes_ok cmp (data_of t) (m_of t) dep (m_of t)"
    "trace_of t = trace_of (new_SegmentTree :: 'a SegmentTree) @ tr"
    "\<forall>a\<in>set tr. slot a < length (data_of t)"
    by auto
  then have "well_formed cmp (take n xs) dep t"
    unfolding well_formed_def trace_ok_def new_SegmentTree_def by simp
  then show ?case ..
next
  case (updated cmp s t i v t')
  then obtain dep where "well_formed cmp s dep t" by blast
  from set_leaf_inv[OF this set_leaf_pre[OF updated(2)], of v] updated(2)
  show ?case by auto
next
  case (queried cmp s t "from" to v t')
  then obtain dep where inv: "well_formed cmp s dep t" by blast
  from get_value_pre[OF queried(2)] have ft: "from \<le> to" "to < m_of t" by auto
  from get_value_eq(1)[OF inv ft] queried(2) have "extends t t'" "data_of t' = data_of t"
    by auto
  from inv_extends[OF inv this] show ?case ..
qed

lemma elements_slice:
  assumes "shaped cmp xs dep t" "from \<le> to" "to < m_of t"
  shows "seg (2 ^ dep) (data_of t) (from + 1) (to + 1) = take (to + 1 - from) (drop from xs)"
proof -
  have xs: "xs = take (m_of t) (drop (2 ^ dep) (data_of t))"
    using assms(1) unfolding shaped_def elements_def by auto
  have "take (to + 1 - from) (drop from xs) =
        take (to + 1 - from) (drop (2 ^ dep + from) (data_of t))"
    unfolding xs using assms(2,3) by (simp add: drop_take min_def add.commute)
  then show ?thesis unfolding seg_def by simp
qed

lemma get_value_scan:
  assumes inv: "well_formed cmp xs dep t" and tp: "total_preorder cmp" and ft: "from \<le> to" "to < m_of t"
  shows "data_of t ! query_index cmp dep (data_of t) from to = linear_scan cmp xs from to"
proof -
  from inv have sh: "shaped cmp xs dep t" and ok: "nodes_ok cmp (data_of t) (m_of t) dep (m_of t)"
    unfolding well_formed_def by auto
  have len: "length (data_of t) = m_of t + 2 ^ dep" "m_of t = length xs" "m_of t \<le> 2 ^ dep"
    using sh unfolding shaped_def by auto
  have FT: "1 \<le> from + 1" "from + 1 \<le> to + 1" "to + 1 \<le> m_of t" using ft by auto
  have out: "\<not> (2 ^ dep < from + 1 \<or> to + 1 < 1)" using ft len by auto
  have mm: "max 1 (from + 1) = from + 1" "min (2 ^ dep) (to + 1) = to + 1"
    using ft len by auto
  from gvs_value[OF tp ok len(1) FT call_geom_root out]
  have "data_of t ! query_index cmp dep (data_of t) from to =
        best cmp (seg (2 ^ dep) (data_of t) (from + 1) (to + 1))"
    unfolding query_index_def mm .
  also have "\<dots> = best cmp (take (to + 1 - from) (drop from xs))"
    unfolding elements_slice[OF sh ft] ..
  also have "\<dots> = linear_scan cmp xs from to"
    using linear_scan_best[of "from" to xs cmp] ft len by simp
  finally show ?thesis .
qed

subsection \<open>The tree invariant, ancestors and frames\<close>

lemma dep_le_pow: "dep \<le> (2::nat) ^ dep"
  using less_exp[of dep] by simp

lemma overlaps_iff:
  assumes x: "at_height dep s x" and m: "0 < m" "m \<le> 2 ^ dep"
  shows "overlaps m (2 ^ dep) x \<longleftrightarrow> x \<le> (2 ^ dep + m - 1) div 2 ^ s"
proof
  assume "overlaps m (2 ^ dep) x"
  then obtain j h where j: "j < m" "(2 ^ dep + j) div 2 ^ h = x"
    unfolding overlaps_def covers_def by auto
  have c: "2 ^ dep \<le> 2 ^ dep + j" "2 ^ dep + j < 2 * 2 ^ dep" using j(1) m by auto
  have "h = s" using anc_level[OF c x] j(2) by simp
  moreover have "(2 ^ dep + j) div 2 ^ s \<le> (2 ^ dep + m - 1) div 2 ^ s"
    using j(1) by (intro div_le_mono) simp
  ultimately show "x \<le> (2 ^ dep + m - 1) div 2 ^ s" using j(2) by simp
next
  assume "x \<le> (2 ^ dep + m - 1) div 2 ^ s"
  then have le: "x * 2 ^ s \<le> 2 ^ dep + m - 1"
    by (simp add: less_eq_div_iff_mult_less_eq)
  have lo: "2 ^ dep \<le> x * 2 ^ s" using x by (rule at_height_first_leaf)
  define j where "j = x * 2 ^ s - 2 ^ dep"
  have j: "j < m" "2 ^ dep + j = x * 2 ^ s" using lo le m unfolding j_def by auto
  have 1: "(2 ^ dep + j) div 2 ^ s = x" unfolding j(2) by simp
  have "s \<le> dep" using x unfolding at_height_def by simp
  then have "s \<le> 2 ^ dep" using dep_le_pow[of dep] by linarith
  then have 2: "s \<in> {0..2 ^ dep}" by simp
  have 3: "j < 2 ^ dep" using j(1) m by simp
  have "covers (2 ^ dep) x j" unfolding covers_def using 1 2 3 by blast
  moreover have "j \<in> {0..<m}" using j(1) by simp
  ultimately show "overlaps m (2 ^ dep) x"
    unfolding overlaps_def by blast
qed

lemma inv_tree_invariant:
  assumes "well_formed cmp xs dep t"
  shows "tree_invariant t"
  unfolding tree_invariant_def
proof (intro ballI impI)
  fix i assume i: "i \<in> {1..<n_of t}" and ov: "overlaps (m_of t) (n_of t) i"
  from assms have sh: "shaped cmp xs dep t" and ok: "nodes_ok cmp (data_of t) (m_of t) dep (m_of t)"
    unfolding well_formed_def by auto
  have f: "n_of t = 2 ^ dep" "0 < m_of t" "m_of t \<le> 2 ^ dep" "compare_of t = Some cmp"
    using sh unfolding shaped_def by auto
  from ov obtain j h where j: "j < m_of t" "(2 ^ dep + j) div 2 ^ h = i"
    unfolding overlaps_def covers_def f(1) by auto
  have c: "2 ^ dep \<le> 2 ^ dep + j" "2 ^ dep + j < 2 * 2 ^ dep" using j(1) f by auto
  have hd: "h \<le> dep"
  proof (rule ccontr)
    assume "\<not> h \<le> dep"
    then have "(2 ^ dep + j) div 2 ^ h = 0" using anc_zero[OF c(2), of h] by simp
    with j(2) i show False by simp
  qed
  have h1: "1 \<le> h"
  proof (rule ccontr)
    assume "\<not> 1 \<le> h"
    then have "h = 0" by simp
    with j(2) i f(1) show False by simp
  qed
  then obtain r where r: "h = Suc r" by (cases h) auto
  have ah: "at_height dep h i" using anc_at_height[OF c hd] j(2) by simp
  have ch: "at_height dep r (i * 2 + 1)" using at_height_children(2) ah unfolding r by blast
  have "node_ok cmp (data_of t) (m_of t) dep h i"
    using ok j h1 hd unfolding nodes_ok_def by blast
  then have v: "data_of t ! i = pick cmp (data_of t) i ((2 ^ dep + m_of t - 1) div 2 ^ r)"
    unfolding node_ok_def r by simp
  have o: "overlaps (m_of t) (n_of t) (2 * i + 1) \<longleftrightarrow>
           i * 2 + 1 \<le> (2 ^ dep + m_of t - 1) div 2 ^ r"
    using overlaps_iff[OF ch f(2,3)] unfolding f(1) by (simp add: mult.commute)
  show "case compare_of t of None \<Rightarrow> False
        | Some cmp \<Rightarrow> data_of t ! i =
            (if overlaps (m_of t) (n_of t) (2 * i + 1)
             then better cmp (data_of t ! (2 * i)) (data_of t ! (2 * i + 1))
             else data_of t ! (2 * i))"
    unfolding f(4) o v pick_def better_def by (simp add: mult.commute)
qed

lemma ancestors_mem: "c div 2 ^ Suc s = 0 \<or> c div 2 ^ Suc s \<in> set (ancestors c)"
proof (induction s arbitrary: c)
  case 0
  show ?case
  proof (cases "1 < c")
    case True
    then show ?thesis by (subst ancestors.simps) simp
  next
    case False
    then have "c div 2 = 0" by simp
    then show ?thesis by simp
  qed
next
  case (Suc s)
  have "(2::nat) ^ Suc (Suc s) = 2 * 2 ^ Suc s" by simp
  then have e: "c div 2 ^ Suc (Suc s) = c div 2 div 2 ^ Suc s" by (simp only: div_mult2_eq)
  show ?case
  proof (cases "1 < c")
    case True
    from Suc.IH[of "c div 2"] show ?thesis
      unfolding e using True by (subst ancestors.simps) auto
  next
    case False
    then have "c div 2 = 0" by simp
    then have "c div 2 ^ Suc (Suc s) = 0" unfolding e by simp
    then show ?thesis ..
  qed
qed

lemma inside_covers:
  assumes ins: "inside dep h (from + 1) (to + 1) k" and cov: "covers (2 ^ dep) k j"
  shows "from \<le> j \<and> j \<le> to"
proof -
  from ins obtain h' where h': "at_height dep h' k"
    "from + 1 + 2 ^ dep \<le> k * 2 ^ h' + 1" "(k + 1) * 2 ^ h' \<le> to + 1 + 2 ^ dep"
    unfolding inside_def by blast
  from cov obtain g where g: "j < 2 ^ dep" "(2 ^ dep + j) div 2 ^ g = k"
    unfolding covers_def by auto
  have c: "2 ^ dep \<le> 2 ^ dep + j" "2 ^ dep + j < 2 * 2 ^ dep" using g(1) by auto
  have "g = h'" using anc_level[OF c h'(1)] g(2) by simp
  then have k: "k = (2 ^ dep + j) div 2 ^ h'" using g(2) by simp
  define p :: nat where "p = 2 ^ h'"
  have pos: "0 < p" unfolding p_def by simp
  have "k * p \<le> 2 ^ dep + j" unfolding k p_def by (rule div_times_less_eq_dividend)
  moreover have "2 ^ dep + j < (k + 1) * p"
    unfolding k p_def using dividend_less_div_times[of "2 ^ h'" "2 ^ dep + j"]
    by (simp add: algebra_simps)
  ultimately show ?thesis using h'(2,3) unfolding p_def[symmetric] by linarith
qed

lemma inside_single:
  assumes "inside dep h (i + 1) (i + 1) k"
  shows "k = 2 ^ dep + i"
proof -
  from assms obtain h' where h':
    "i + 1 + 2 ^ dep \<le> k * 2 ^ h' + 1" "(k + 1) * 2 ^ h' \<le> i + 1 + 2 ^ dep"
    unfolding inside_def by blast
  define p :: nat where "p = 2 ^ h'"
  have pos: "0 < p" unfolding p_def by simp
  have a: "i + 2 ^ dep \<le> k * p" "k * p + p \<le> i + 1 + 2 ^ dep"
    using h' unfolding p_def by (simp_all add: algebra_simps)
  then have "p = 1" using pos by linarith
  with a show ?thesis by simp
qed

text \<open>Two stores that agree on every node inside the queried range answer alike.\<close>

lemma gvs_cong:
  assumes FT: "F \<le> T" and agree: "\<And>k. inside dep dep F T k \<Longrightarrow> d' ! k = d ! k"
  shows "call_geom dep h index left right \<Longrightarrow>
         gvs cmp d' F T index left right = gvs cmp d F T index left right"
proof (induction h arbitrary: index left right)
  case 0
  show ?case unfolding gvs_leaf[OF 0] ..
next
  case (Suc h)
  note ch = call_geom_children[OF Suc.prems]
  have hd: "h < dep" using Suc.prems unfolding call_geom_def at_height_def by simp
  define c where "c = (left + right) div 2"
  define i where "i = gvs cmp d F T (index * 2) left c"
  define j where "j = gvs cmp d F T (index * 2 + 1) (c + 1) right"
  have i': "gvs cmp d' F T (index * 2) left c = i"
    unfolding i_def c_def by (rule Suc.IH[OF ch(1)])
  have j': "gvs cmp d' F T (index * 2 + 1) (c + 1) right = j"
    unfolding j_def c_def by (rule Suc.IH[OF ch(2)])
  show ?case
  proof (cases "right < F \<or> T < left \<or> (F \<le> left \<and> right \<le> T)")
    case True
    then show ?thesis by (subst (1 2) gvs.simps) auto
  next
    case False
    then have out: "\<not> (right < F \<or> T < left)" and part: "\<not> (F \<le> left \<and> right \<le> T)"
      by auto
    have ai: "d' ! i = d ! i" if "i \<noteq> 0"
    proof -
      have "inside dep h F T i"
        using gvs_nonzero[OF FT ch(1), of cmp d] that unfolding i_def c_def by simp
      then show ?thesis using hd by (intro agree inside_mono[of dep h F T i dep]) auto
    qed
    have aj: "d' ! j = d ! j" if "j \<noteq> 0"
    proof -
      have "inside dep h F T j"
        using gvs_nonzero[OF FT ch(2), of cmp d] that unfolding j_def c_def by simp
      then show ?thesis using hd by (intro agree inside_mono[of dep h F T j dep]) auto
    qed
    have "gvs cmp d' F T index left right =
      (if j = 0 then i else if i = 0 then j else if 0 \<ge> cmp (d' ! i) (d' ! j) then i else j)"
      unfolding gvs_node[OF out part] Let_def c_def[symmetric] i' j' ..
    also have "\<dots> =
      (if j = 0 then i else if i = 0 then j else if 0 \<ge> cmp (d ! i) (d ! j) then i else j)"
      using ai aj by auto
    also have "\<dots> = gvs cmp d F T index left right"
      unfolding gvs_node[OF out part] Let_def c_def[symmetric] i_def j_def ..
    finally show ?thesis .
  qed
qed

text \<open>\<open>set_leaf\<close> leaves every node inside a range that excludes the leaf as it was.\<close>

lemma set_leaf_inside:
  assumes i: "i < m" "m \<le> 2 ^ dep" and ft: "to < i \<or> i < from"
    and ins: "inside dep h (from + 1) (to + 1) k"
  shows "upd_data cmp (2 ^ dep + i) e (d[2 ^ dep + i := v]) ! k = d ! k"
proof -
  let ?c = "2 ^ dep + i"
  have ne: "k \<noteq> ?c div 2 ^ s" for s
  proof
    assume e: "k = ?c div 2 ^ s"
    have "s \<le> 2 ^ dep"
    proof (rule ccontr)
      assume "\<not> s \<le> 2 ^ dep"
      then have "dep < s" using dep_le_pow[of dep] by linarith
      then have "?c div 2 ^ s = 0" using anc_zero[of ?c dep s] i by simp
      with e inside_pos[OF ins] show False by simp
    qed
    then have "covers (2 ^ dep) k i" unfolding covers_def using e i by auto
    from inside_covers[OF ins this] ft show False by simp
  qed
  have "upd_data cmp ?c e (d[?c := v]) ! k = d[?c := v] ! k"
    by (rule upd_data_frame) (rule ne)
  also have "\<dots> = d ! k" using ne[of 0] by simp
  finally show ?thesis .
qed

subsection \<open>Facts of a Ready tree\<close>

lemma ready_facts:
  assumes "ready cmp s t"
  obtains dep where "well_formed cmp s dep t" "shaped cmp s dep t" "m_of t = length s" "n_of t = 2 ^ dep"
    "length (data_of t) = m_of t + n_of t" "m_of t \<le> 2 ^ dep" "compare_of t = Some cmp"
proof -
  from ready_inv[OF assms] obtain dep where inv: "well_formed cmp s dep t" by blast
  then have sh: "shaped cmp s dep t" unfolding well_formed_def by simp
  show ?thesis
    by (rule that[OF inv sh]) (use sh in \<open>auto simp: shaped_def\<close>)
qed

text \<open>The frame of \<open>set_leaf\<close> that does hold: slot \<open>0\<close> set aside, only the leaf slot and its
  ancestors up to the root change.\<close>

lemma set_leaf_frame_but_slot_0:
  assumes "ready cmp s t" "i < length s"
  shows "\<exists>t'. set_leaf i v t = Inr t' \<and> length (data_of t') = length (data_of t) \<and>
           (\<forall>q. q \<noteq> 0 \<and> q \<noteq> n_of t + i \<and> q \<notin> set (ancestors (n_of t + i)) \<longrightarrow>
                data_of t' ! q = data_of t ! q) \<and>
           (\<forall>j. j < length s \<and> j \<noteq> i \<longrightarrow> data_of t' ! (n_of t + j) = data_of t ! (n_of t + j))"
proof -
  from assms(1) obtain dep where inv: "well_formed cmp s dep t" and m: "m_of t = length s"
    and n: "n_of t = 2 ^ dep" and mn: "m_of t \<le> 2 ^ dep"
    by (rule ready_facts)
  have i: "i < m_of t" using assms(2) m by simp
  let ?c = "2 ^ dep + i"
  from set_leaf_inv[OF inv i, of v] obtain t' where t':
    "set_leaf i v t = Inr t'" "extends t t'"
    "data_of t' = upd_data cmp ?c (2 ^ dep + m_of t - 1) ((data_of t)[?c := v])"
    by blast
  have len: "length (data_of t') = length (data_of t)" using t'(2) unfolding extends_def by simp
  have a: "data_of t' ! q = data_of t ! q"
    if q: "q \<noteq> 0 \<and> q \<noteq> n_of t + i \<and> q \<notin> set (ancestors (n_of t + i))" for q
  proof -
    have "q \<noteq> ?c div 2 ^ s'" if s1: "1 \<le> s'" for s'
    proof -
      obtain r where "s' = Suc r" using s1 by (cases s') auto
      then show ?thesis using ancestors_mem[of ?c r] q n by auto
    qed
    then have "data_of t' ! q = (data_of t)[?c := v] ! q"
      unfolding t'(3) by (rule upd_data_frame)
    then show ?thesis using q n by simp
  qed
  have b: "data_of t' ! (n_of t + j) = data_of t ! (n_of t + j)" if "j < length s \<and> j \<noteq> i" for j
  proof -
    have "data_of t' ! (2 ^ dep + j) = (data_of t)[?c := v] ! (2 ^ dep + j)"
      unfolding t'(3) using i mn by (intro upd_data_leaf) auto
    then show ?thesis using that n by simp
  qed
  show ?thesis using t'(1) len a b by blast
qed

subsection \<open>Examples\<close>

lemma example_fields:
  "map_sum id (\<lambda>t. (m_of t, n_of t, data_of t, trace_of t))
     (prepare (0::real) (Some [3, 1, 2]) 3 (Some compare) new_SegmentTree) =
   Inr (3, 4, [0, 1, 1, 2, 3, 1, 2],
        [Wr 4, Wr 5, Wr 6, Rd 4, Rd 5, Rd 5, Wr 2, Rd 2, Rd 3, Rd 3, Wr 1, Rd 0, Rd 1, Rd 0, Wr 0,
         Rd 6, Wr 3, Rd 2, Rd 3, Rd 2, Wr 1, Rd 0, Rd 1, Rd 0, Wr 0])"
  by code_simp

lemma example_built:
  "prepare 0 (Some [3, 1, 2]) 3 (Some compare) new_SegmentTree = Inr example_tree"
proof -
  from prepare_inv[of 3 "[3, 1, 2]" 0 compare new_SegmentTree] obtain t dep where
    t: "prepare 0 (Some [3, 1, 2]) 3 (Some compare) new_SegmentTree = Inr t"
    and "shaped compare (take 3 [3, 1, 2]) dep t"
    by auto
  then have "compare_of t = Some compare" unfolding shaped_def by simp
  moreover have "m_of t = 3" "n_of t = 4" "data_of t = [0, 1, 1, 2, 3, 1, 2]"
    "trace_of t =
      [Wr 4, Wr 5, Wr 6, Rd 4, Rd 5, Rd 5, Wr 2, Rd 2, Rd 3, Rd 3, Wr 1, Rd 0, Rd 1, Rd 0, Wr 0,
       Rd 6, Wr 3, Rd 2, Rd 3, Rd 2, Wr 1, Rd 0, Rd 1, Rd 0, Wr 0]"
    using example_fields unfolding t by simp_all
  ultimately have "t = example_tree" unfolding example_tree_def by simp
  with t show ?thesis by simp
qed

lemma ready_example: "ready compare [3, 1, 2] example_tree"
  using ready.built[of 3 "[3, 1, 2]" 0 compare example_tree] example_built by simp

lemma total_preorder_compare: "total_preorder compare"
  unfolding total_preorder_def compare_def by auto

lemma total_preorder_by_key: "total_preorder by_key"
  unfolding total_preorder_def by_key_def compare_def by auto

lemma ready_tie:
  "\<exists>t. ready by_key [(1, 10), (0, 20), (0, 30)] t"
proof -
  from prepare_inv[of 3 "[(1, 10), (0, 20), (0, 30)]" "(0, 0)" by_key new_SegmentTree]
  obtain t where "prepare (0, 0) (Some [(1, 10), (0, 20), (0, 30)]) 3 (Some by_key) new_SegmentTree = Inr t"
    by auto
  from ready.built[OF _ this] show ?thesis by auto
qed

text \<open>The invariant tells a damaged tree from a sound one: node \<open>2\<close> must hold the better of
  the slots \<open>4\<close> and \<open>5\<close>.\<close>

lemma tree_invariant_broken:
  "\<not> tree_invariant (example_tree\<lparr>data_of := [0, 1, 3, 2, 3, 1, 2]\<rparr>)"
proof
  let ?t = "example_tree\<lparr>data_of := [0, 1, 3, 2, 3, 1, 2]\<rparr>"
  assume a: "tree_invariant ?t"
  have f: "m_of ?t = 3" "n_of ?t = 4" "compare_of ?t = Some compare"
    "data_of ?t = [0, 1, 3, 2, 3, 1, 2]"
    by (simp_all add: example_tree_def)
  have "covers 4 2 0" unfolding covers_def by (intro conjI bexI[of _ 1]) simp_all
  then have o2: "overlaps 3 4 2" unfolding overlaps_def by (intro bexI[of _ 0]) simp_all
  have "covers 4 5 1" unfolding covers_def by (intro conjI bexI[of _ 0]) simp_all
  then have o5: "overlaps 3 4 (2 * 2 + 1)" unfolding overlaps_def by (intro bexI[of _ 1]) simp_all
  have "(2::nat) \<in> {1..<4}" by simp
  with a o2 have "data_of ?t ! 2 =
      (if overlaps 3 4 (2 * 2 + 1) then better compare (data_of ?t ! (2 * 2)) (data_of ?t ! (2 * 2 + 1))
       else data_of ?t ! (2 * 2))"
    unfolding tree_invariant_def f(1,2,3) by (auto dest!: bspec[of _ _ 2])
  with o5 show False unfolding f(4) by (simp add: better_def compare_def)
qed

section \<open>The claims\<close>

text \<open>
  Claim C1. For every Ready tree over a sequence \<open>s\<close> with a total, consistent comparator, and
  all \<open>from \<le> to < length s\<close>, \<open>get_value from to\<close> returns the result of the brute-force
  linear scan over the positions \<open>from..to\<close> of \<open>s\<close> with the same comparator.
\<close>

theorem get_value_is_linear_scan:
  assumes "ready cmp s t" "total_preorder cmp" "from \<le> to" "to < length s"
  shows "\<exists>t'. get_value from to t = Inr (linear_scan cmp s from to, t')"
proof -
  from assms(1) obtain dep where inv: "well_formed cmp s dep t" and m: "m_of t = length s"
    by (rule ready_facts)
  have ft: "from \<le> to" "to < m_of t" using assms(3,4) m by auto
  from get_value_eq(1)[OF inv ft] get_value_scan[OF inv assms(2) ft]
  show ?thesis by auto
qed

text \<open>
  The tree over \<open>3, 1, 2\<close>: the query \<open>0..2\<close> returns \<open>1\<close>.
\<close>

theorem get_value_is_linear_scan_witness:
  "ready compare [3, 1, 2] example_tree \<and> total_preorder compare \<and> (0::nat) \<le> 2 \<and>
   (2::nat) < length [3::real, 1, 2] \<and> (\<exists>t'. get_value 0 2 example_tree = Inr (1, t'))"
proof -
  have "linear_scan compare [3, 1, 2] 0 2 = 1"
    by (simp add: linear_scan_def compare_def upt_rec)
  then show ?thesis
    using get_value_is_linear_scan[OF ready_example total_preorder_compare, of 0 2]
      ready_example total_preorder_compare by simp
qed

text \<open>
  Claim C2. The tree invariant holds in every Ready state: right after \<open>prepare\<close>, and
  after every completed \<open>set_leaf\<close> (and \<open>get_value\<close>). Each internal node \<open>i\<close> with
  \<open>1 \<le> i < n\<close> whose subtree overlaps a valid leaf holds the better of the slots \<open>2i\<close> and
  \<open>2i + 1\<close>, ties to \<open>2i\<close>, and holds slot \<open>2i\<close> where the right subtree has no valid leaf.
\<close>

theorem ready_tree_invariant: "ready cmp s t \<Longrightarrow> tree_invariant t"
  using ready_inv inv_tree_invariant by blast

text \<open>
  The tree over \<open>3, 1, 2\<close> satisfies the invariant.
\<close>

theorem ready_tree_invariant_witness:
  "ready compare [3, 1, 2] example_tree \<and> tree_invariant example_tree"
  using ready_tree_invariant[OF ready_example] ready_example by simp

text \<open>
  Claim C3. On a Ready tree, for a valid index \<open>i\<close> and any value \<open>v\<close>, \<open>set_leaf i v\<close>
  completes; afterwards \<open>get_value i i\<close> returns exactly \<open>v\<close>, and a query over a valid range
  that does not contain \<open>i\<close> returns what it returned before the update. No assumption on
  the comparator is needed.
\<close>

theorem set_leaf_then_get_value:
  assumes "ready cmp s t" "i < length s"
  shows "\<exists>t'. set_leaf i v t = Inr t' \<and>
           (\<exists>u. get_value i i t' = Inr (v, u)) \<and>
           (\<forall>from to. from \<le> to \<and> to < length s \<and> (to < i \<or> i < from) \<longrightarrow>
              (\<exists>w u u'. get_value from to t = Inr (w, u) \<and> get_value from to t' = Inr (w, u')))"
proof -
  from assms(1) obtain dep where inv: "well_formed cmp s dep t" and sh: "shaped cmp s dep t"
    and m: "m_of t = length s" and mn: "m_of t \<le> 2 ^ dep"
    by (rule ready_facts)
  have i: "i < m_of t" using assms(2) m by simp
  from set_leaf_inv[OF inv i, of v] obtain t' where t':
    "set_leaf i v t = Inr t'" "well_formed cmp (s[i := v]) dep t'" "extends t t'"
    "data_of t' = upd_data cmp (2 ^ dep + i) (2 ^ dep + m_of t - 1) ((data_of t)[2 ^ dep + i := v])"
    by blast
  have m': "m_of t' = m_of t" using t'(3) unfolding extends_def by simp
  have sh': "shaped cmp (s[i := v]) dep t'" using t'(2) unfolding well_formed_def by simp
  have i': "i < m_of t'" using i m' by simp
  have "query_index cmp dep (data_of t') i i = 2 ^ dep + i"
    using get_value_eq(2)[OF t'(2) le_refl i'] by (rule inside_single)
  moreover have "data_of t' ! (2 ^ dep + i) = v"
    using shaped_nth[OF sh' i'] assms(2) by simp
  ultimately have one: "\<exists>u. get_value i i t' = Inr (v, u)"
    using get_value_eq(1)[OF t'(2) le_refl i'] by auto
  have two: "\<exists>w u u'. get_value from to t = Inr (w, u) \<and> get_value from to t' = Inr (w, u')"
    if ft: "from \<le> to" "to < length s" "to < i \<or> i < from" for "from" to
  proof -
    have b: "to < m_of t" "to < m_of t'" using ft(2) m m' by auto
    let ?k = "query_index cmp dep (data_of t) from to"
    have ag: "data_of t' ! k = data_of t ! k" if "inside dep dep (from + 1) (to + 1) k" for k
      unfolding t'(4) using set_leaf_inside[OF i mn ft(3) that] .
    have "query_index cmp dep (data_of t') from to = ?k"
      unfolding query_index_def using ft(1)
      by (intro gvs_cong[OF _ ag call_geom_root]) auto
    moreover have "data_of t' ! ?k = data_of t ! ?k"
      using get_value_eq(2)[OF inv ft(1) b(1)] by (rule ag)
    ultimately show ?thesis
      using get_value_eq(1)[OF inv ft(1) b(1)] get_value_eq(1)[OF t'(2) ft(1) b(2)] by auto
  qed
  show ?thesis using t'(1) one two by blast
qed

text \<open>
  On the tree over \<open>3, 1, 2\<close>, \<open>set_leaf 1 5\<close> makes the query \<open>1..1\<close> return \<open>5\<close> and
  leaves the queries \<open>2..2\<close> and \<open>0..0\<close> as they were.
\<close>

theorem set_leaf_then_get_value_witness:
  "ready compare [3, 1, 2] example_tree \<and> (1::nat) < length [3::real, 1, 2] \<and>
   (\<exists>t'. set_leaf 1 5 example_tree = Inr t' \<and>
      (\<exists>u. get_value 1 1 t' = Inr (5, u)) \<and>
      (\<exists>w u u'. get_value 2 2 example_tree = Inr (w, u) \<and> get_value 2 2 t' = Inr (w, u')) \<and>
      (\<exists>w u u'. get_value 0 0 example_tree = Inr (w, u) \<and> get_value 0 0 t' = Inr (w, u')))"
proof -
  from set_leaf_then_get_value[OF ready_example, of 1 5] obtain t' where
    t': "set_leaf 1 5 example_tree = Inr t'" "\<exists>u. get_value 1 1 t' = Inr (5, u)"
    and fr: "\<And>from to. from \<le> to \<and> to < length [3::real, 1, 2] \<and> (to < 1 \<or> 1 < from) \<Longrightarrow>
      \<exists>w u u'. get_value from to example_tree = Inr (w, u) \<and> get_value from to t' = Inr (w, u')"
    by auto
  show ?thesis using t' fr[of 2 2] fr[of 0 0] ready_example by auto
qed

text \<open>
  Claim C4. On a Ready tree with a total, consistent comparator, \<open>get_value from to\<close>
  returns the element at the lowest index among the best of the range: the returned element
  \<open>s ! k\<close> is at least as good as every element of \<open>from..to\<close>, and every element of the
  range to its left is strictly worse. So among equally ranked best elements the leftmost
  wins, as the merges of \<open>update\<close> and \<open>get_value_sub\<close> (both \<open>better\<close>) prefer the left
  operand on a tie.
\<close>

theorem get_value_leftmost_best:
  assumes "ready cmp s t" "total_preorder cmp" "from \<le> to" "to < length s"
  shows "\<exists>k t'. from \<le> k \<and> k \<le> to \<and> get_value from to t = Inr (s ! k, t') \<and>
           (\<forall>j. from \<le> j \<and> j \<le> to \<longrightarrow> cmp (s ! k) (s ! j) \<le> 0) \<and>
           (\<forall>j. from \<le> j \<and> j < k \<longrightarrow> 0 < cmp (s ! j) (s ! k))"
proof -
  from assms(1) obtain dep where inv: "well_formed cmp s dep t" and m: "m_of t = length s"
    by (rule ready_facts)
  have ft: "from \<le> to" "to < m_of t" using assms(3,4) m by auto
  define ys where "ys = take (to + 1 - from) (drop from s)"
  have len: "length ys = to + 1 - from" unfolding ys_def using assms(3,4) by simp
  have nth: "ys ! j = s ! (from + j)" if "j < length ys" for j
    using that assms(4) unfolding ys_def by simp
  have ne: "ys \<noteq> []" using len assms(3) by auto
  from best_leftmost[OF assms(2) ne] obtain k' where k':
    "k' < length ys" "best cmp ys = ys ! k'"
    "\<forall>j < length ys. cmp (ys ! k') (ys ! j) \<le> 0" "\<forall>j < k'. 0 < cmp (ys ! j) (ys ! k')"
    by blast
  have v: "linear_scan cmp s from to = s ! (from + k')"
    using linear_scan_best[OF assms(3,4), of cmp] k'(1,2) nth unfolding ys_def by simp
  from get_value_eq(1)[OF inv ft] get_value_scan[OF inv assms(2) ft]
  obtain t' where g: "get_value from to t = Inr (s ! (from + k'), t')" unfolding v by auto
  have a: "cmp (s ! (from + k')) (s ! j) \<le> 0" if "from \<le> j" "j \<le> to" for j
  proof -
    have "j - from < length ys" using that len by simp
    with k'(3) nth[of "j - from"] nth[OF k'(1)] that show ?thesis by auto
  qed
  have b: "0 < cmp (s ! j) (s ! (from + k'))" if "from \<le> j" "j < from + k'" for j
  proof -
    have "j - from < k'" using that by simp
    with k'(1,4) nth[of "j - from"] nth[OF k'(1)] that show ?thesis by auto
  qed
  show ?thesis
    by (rule exI[of _ "from + k'"], rule exI[of _ t']) (use g a b k'(1) len in auto)
qed

text \<open>
  Three pairs ranked by their first component; the second and the third tie for
  the best, and the query over all returns the second.
\<close>

theorem get_value_leftmost_best_witness:
  "\<exists>t. ready by_key [(1, 10), (0, 20), (0, 30)] t \<and> total_preorder by_key \<and> (0::nat) \<le> 2 \<and>
       (2::nat) < length [(1::real, 10::nat), (0, 20), (0, 30)] \<and>
       (\<exists>t'. get_value 0 2 t = Inr ((0, 20), t'))"
proof -
  let ?s = "[(1::real, 10::nat), (0, 20), (0, 30)]"
  from ready_tie obtain t where t: "ready by_key ?s t" by blast
  from get_value_leftmost_best[OF t total_preorder_by_key, of 0 2] obtain k t' where
    k: "k \<le> 2" "get_value 0 2 t = Inr (?s ! k, t')"
    "\<forall>j. 0 \<le> j \<and> j \<le> 2 \<longrightarrow> by_key (?s ! k) (?s ! j) \<le> 0"
    "\<forall>j. 0 \<le> j \<and> j < k \<longrightarrow> 0 < by_key (?s ! j) (?s ! k)"
    by auto
  from k(1) consider "k = 0" | "k = 1" | "k = 2" by linarith
  then have "k = 1"
  proof cases
    case 1
    with k(3)[rule_format, of 1] show ?thesis by (simp add: by_key_def compare_def)
  next
    case 2
    then show ?thesis .
  next
    case 3
    with k(4)[rule_format, of 1] show ?thesis by (simp add: by_key_def compare_def)
  qed
  with k(2) have "get_value 0 2 t = Inr ((0, 20), t')" by simp
  with t total_preorder_by_key show ?thesis by auto
qed

text \<open>
  Claim C5 says that no operation reads or writes storage slot \<open>0\<close>. The loop of \<open>update\<close>
  runs while \<open>0 < i\<close> and halves \<open>i\<close> first, so its last round has \<open>i = 0\<close>, \<open>h = 0\<close> and
  \<open>k = 1\<close>: it compares the slots \<open>0\<close> and \<open>1\<close> and stores the better one in slot \<open>0\<close>. Running
  \<open>prepare\<close> over \<open>1, -1\<close> shows the reads and the write, and slot \<open>0\<close> going from the
  value-initialised \<open>0\<close> to \<open>-1\<close>; \<open>set_leaf 1 5\<close> on the tree over \<open>3, 1, 2\<close> does the same.
\<close>

theorem update_touches_slot_0:
  "map_sum id (\<lambda>t. (data_of t, trace_of t))
     (prepare 0 (Some [1, -1]) 2 (Some compare) new_SegmentTree) =
   Inr ([-1, -1, 1, -1], [Wr 2, Wr 3, Rd 2, Rd 3, Rd 3, Wr 1, Rd 0, Rd 1, Rd 1, Wr 0]) \<and>
   map_sum id (\<lambda>t. drop (length (trace_of example_tree)) (trace_of t))
     (set_leaf 1 5 example_tree) =
   Inr [Wr 5, Rd 4, Rd 5, Rd 4, Wr 2, Rd 2, Rd 3, Rd 3, Wr 1, Rd 0, Rd 1, Rd 0, Wr 0]"
  by code_simp

text \<open>
  Claim C6. Each operation fails exactly on its precondition violation and completes
  otherwise. The source has one failure mechanism, \<open>assert\<close>: what the specification calls
  InvalidArgument is a failed assertion of \<open>prepare\<close> (\<open>data\<close>, \<open>n\<close>, \<open>compare\<close>) or of
  \<open>get_value\<close> (\<open>from <= to\<close>, \<open>to < m_\<close>), and its OutOfRange is the failed assertion
  \<open>i < m_\<close> of \<open>set_leaf\<close>. \<open>prepare\<close> completes on any object when the array has the \<open>n > 0\<close>
  announced elements and the comparator is present; on a Ready tree \<open>get_value\<close> completes
  when \<open>from \<le> to < m\<close> and \<open>set_leaf\<close> when \<open>i < m\<close>.
\<close>

theorem api_fail_fast:
  "prepare dflt None n c t = Inl (Assertion_failed ''data'') \<and>
   prepare dflt (Some xs) 0 c t = Inl (Assertion_failed ''n'') \<and>
   (0 < n \<longrightarrow> prepare dflt (Some xs) n None t = Inl (Assertion_failed ''compare'')) \<and>
   (0 < n \<and> n \<le> length xs \<longrightarrow> (\<exists>t'. prepare dflt (Some xs) n (Some cmp) t = Inr t')) \<and>
   (ready cmp s r \<longrightarrow>
      (to < from \<longrightarrow> get_value from to r = Inl (Assertion_failed ''from <= to'')) \<and>
      (from \<le> to \<and> length s \<le> to \<longrightarrow> get_value from to r = Inl (Assertion_failed ''to < m_'')) \<and>
      (from \<le> to \<and> to < length s \<longrightarrow> (\<exists>w u. get_value from to r = Inr (w, u))) \<and>
      (length s \<le> i \<longrightarrow> set_leaf i v r = Inl (Assertion_failed ''i < m_'')) \<and>
      (i < length s \<longrightarrow> (\<exists>u. set_leaf i v r = Inr u)))"
proof (intro conjI impI)
  show "prepare dflt None n c t = Inl (Assertion_failed ''data'')"
    unfolding prepare_def by simp
  show "prepare dflt (Some xs) 0 c t = Inl (Assertion_failed ''n'')"
    unfolding prepare_def by simp
  show "prepare dflt (Some xs) n None t = Inl (Assertion_failed ''compare'')" if "0 < n"
    using that unfolding prepare_def by simp
  show "\<exists>t'. prepare dflt (Some xs) n (Some cmp) t = Inr t'" if "0 < n \<and> n \<le> length xs"
    using prepare_inv[of n xs dflt cmp t] that by blast
next
  assume r: "ready cmp s r"
  then obtain dep where inv: "well_formed cmp s dep r" and m: "m_of r = length s"
    by (rule ready_facts)
  show "get_value from to r = Inl (Assertion_failed ''from <= to'')" if "to < from"
    using that unfolding get_value_def by simp
  show "get_value from to r = Inl (Assertion_failed ''to < m_'')" if "from \<le> to \<and> length s \<le> to"
    using that m unfolding get_value_def by simp
  show "\<exists>w u. get_value from to r = Inr (w, u)" if "from \<le> to \<and> to < length s"
    using get_value_eq(1)[OF inv, of "from" to] that m by auto
  show "set_leaf i v r = Inl (Assertion_failed ''i < m_'')" if "length s \<le> i"
    using that m unfolding set_leaf_def by simp
  show "\<exists>u. set_leaf i v r = Inr u" if "i < length s"
    using set_leaf_inv[OF inv, of i v] that m by auto
qed

text \<open>
  Each case at a concrete call; \<open>get_value 5 2\<close> and \<open>set_leaf m v\<close> (here \<open>m = 3\<close>)
  are the failure scenarios of the specification.
\<close>

theorem api_fail_fast_witness:
  "prepare (0::real) None 3 (Some compare) new_SegmentTree = Inl (Assertion_failed ''data'') \<and>
   prepare (0::real) (Some [3, 1, 2]) 0 (Some compare) new_SegmentTree = Inl (Assertion_failed ''n'') \<and>
   prepare (0::real) (Some [3, 1, 2]) 3 None new_SegmentTree = Inl (Assertion_failed ''compare'') \<and>
   (\<exists>t'. prepare (0::real) (Some [3, 1, 2]) 3 (Some compare) new_SegmentTree = Inr t') \<and>
   ready compare [3, 1, 2] example_tree \<and>
   get_value 5 2 example_tree = Inl (Assertion_failed ''from <= to'') \<and>
   get_value 0 3 example_tree = Inl (Assertion_failed ''to < m_'') \<and>
   (\<exists>w u. get_value 0 2 example_tree = Inr (w, u)) \<and>
   set_leaf 3 9 example_tree = Inl (Assertion_failed ''i < m_'') \<and>
   (\<exists>u. set_leaf 1 5 example_tree = Inr u)"
  using api_fail_fast[of 0 3 "Some compare" new_SegmentTree "[3, 1, 2]" compare "[3, 1, 2]"
      example_tree 2 5 3 9]
    api_fail_fast[of 0 3 None new_SegmentTree "[3, 1, 2]" compare "[3, 1, 2]"
      example_tree 3 0 1 5]
    api_fail_fast[of 0 3 "Some compare" new_SegmentTree "[3, 1, 2]" compare "[3, 1, 2]"
      example_tree 2 0 1 5]
    ready_example
  by simp

text \<open>
  Claim C7. The scenario of main.cpp: after \<open>prepare\<close> over \<open>7, 2, 4, 3, 9, 8, 0, 6, 5, 1\<close>
  with the ascending comparator, the queries \<open>1..2\<close>, \<open>2..4\<close>, \<open>3..7\<close>, \<open>8..8\<close> and \<open>7..9\<close>
  return \<open>2\<close>, \<open>3\<close>, \<open>0\<close>, \<open>5\<close> and \<open>1\<close>. Proved by running the model.
\<close>

theorem main_scenario:
  "(case prepare 0 (Some main_data) 10 (Some compare) new_SegmentTree of
      Inl e \<Rightarrow> False
    | Inr t \<Rightarrow>
        map_sum id fst (get_value 1 2 t) = Inr 2 \<and>
        map_sum id fst (get_value 2 4 t) = Inr 3 \<and>
        map_sum id fst (get_value 3 7 t) = Inr 0 \<and>
        map_sum id fst (get_value 8 8 t) = Inr 5 \<and>
        map_sum id fst (get_value 7 9 t) = Inr 1)"
  by code_simp

text \<open>
  Claim C8. In a Ready tree \<open>n_\<close> is the smallest power of two that is at least \<open>m\<close>: it is
  what the doubling loop of \<open>prepare\<close> computes from \<open>m\<close>, which for \<open>m = 1, 2, 5, 8, 10\<close> is
  \<open>1, 2, 8, 8, 16\<close>. The storage has exactly \<open>m + n\<close> slots. For every valid query the node
  \<open>k\<close> that \<open>get_value_sub\<close> selects, whose slot \<open>get_value\<close> returns, covers only leaves of
  the queried range, and its value is the value of one of the positions \<open>from..to\<close>: no
  padding leaf (a position \<open>\<ge> m\<close>) supplies the result.
\<close>

theorem power_of_two_sizing:
  assumes "ready cmp s t"
  shows "(\<exists>d. n_of t = 2 ^ d) \<and> m_of t = length s \<and> length s \<le> n_of t \<and>
         (\<forall>d. length s \<le> 2 ^ d \<longrightarrow> n_of t \<le> 2 ^ d) \<and>
         grow 1 (length s) = Some (n_of t) \<and>
         grow 1 1 = Some 1 \<and> grow 1 2 = Some 2 \<and> grow 1 5 = Some 8 \<and>
         grow 1 8 = Some 8 \<and> grow 1 10 = Some 16 \<and>
         length (data_of t) = m_of t + n_of t \<and>
         (\<forall>from to. from \<le> to \<and> to < length s \<longrightarrow>
            (\<exists>k u u'. get_value_sub (from + 1) (to + 1) 1 1 (n_of t) t = Inr (k, u) \<and> k \<noteq> 0 \<and>
                   get_value from to t = Inr (data_of t ! k, u') \<and>
                   (\<forall>j. covers (n_of t) k j \<longrightarrow> from \<le> j \<and> j \<le> to) \<and>
                   (\<exists>j. from \<le> j \<and> j \<le> to \<and> data_of t ! k = s ! j)))"
proof -
  from assms obtain dep where inv: "well_formed cmp s dep t" and sh: "shaped cmp s dep t"
    and m: "m_of t = length s" and n: "n_of t = 2 ^ dep"
    and len: "length (data_of t) = m_of t + n_of t" and mn: "m_of t \<le> 2 ^ dep"
    and c: "compare_of t = Some cmp"
    by (rule ready_facts)
  have small: "dep = 0 \<or> 2 ^ (dep - 1) < length s" and pos: "0 < length s"
    using sh unfolding shaped_def by auto
  have least: "n_of t \<le> 2 ^ d" if "length s \<le> 2 ^ d" for d
  proof (cases "dep \<le> d")
    case True
    then show ?thesis unfolding n by (intro power_increasing) auto
  next
    case False
    then have d: "d \<le> dep - 1" "dep \<noteq> 0" by auto
    then have "(2::nat) ^ d \<le> 2 ^ (dep - 1)" by (intro power_increasing) auto
    moreover have "2 ^ (dep - 1) < length s" using small d(2) by simp
    ultimately have False using that by linarith
    then show ?thesis ..
  qed
  from grow_spec[of 1 "length s"] obtain e where
    e: "grow 1 (length s) = Some (2 ^ e)" "length s \<le> 2 ^ e" "e = 0 \<or> 2 ^ (e - 1) < length s"
    by auto
  have "(2::nat) ^ e = 2 ^ dep"
  proof (rule antisym)
    show "(2::nat) ^ dep \<le> 2 ^ e" using least[OF e(2)] n by simp
    show "(2::nat) ^ e \<le> 2 ^ dep"
    proof (cases "e \<le> dep")
      case True
      then show ?thesis by (intro power_increasing) auto
    next
      case False
      then have d: "dep \<le> e - 1" "e \<noteq> 0" by auto
      then have "(2::nat) ^ dep \<le> 2 ^ (e - 1)" by (intro power_increasing) auto
      moreover have "2 ^ (e - 1) < length s" using e(3) d(2) by simp
      ultimately have False using mn m by linarith
      then show ?thesis ..
    qed
  qed
  then have g: "grow 1 (length s) = Some (n_of t)" using e(1) n by simp
  have q: "\<exists>k u u'. get_value_sub (from + 1) (to + 1) 1 1 (n_of t) t = Inr (k, u) \<and> k \<noteq> 0 \<and>
                   get_value from to t = Inr (data_of t ! k, u') \<and>
                   (\<forall>j. covers (n_of t) k j \<longrightarrow> from \<le> j \<and> j \<le> to) \<and>
                   (\<exists>j. from \<le> j \<and> j \<le> to \<and> data_of t ! k = s ! j)"
    if ft: "from \<le> to \<and> to < length s" for "from" to
  proof -
    have FT: "from + 1 \<le> to + 1" "to + 1 \<le> m_of t" using ft m by auto
    have l2: "length (data_of t) = m_of t + 2 ^ dep" using len n by simp
    let ?k = "query_index cmp dep (data_of t) from to"
    from get_value_sub_eq[OF FT c l2 call_geom_root] obtain u where
      u: "get_value_sub (from + 1) (to + 1) 1 1 (2 ^ dep) t = Inr (?k, u)"
      unfolding query_index_def by blast
    have ins: "inside dep dep (from + 1) (to + 1) ?k"
      using get_value_eq(2)[OF inv, of "from" to] ft m by simp
    have ok: "nodes_ok cmp (data_of t) (m_of t) dep (m_of t)" using inv unfolding well_formed_def by simp
    have tm: "to < m_of t" using ft m by simp
    from get_value_eq(1)[OF inv _ tm, of "from"] ft obtain u' where
      u': "get_value from to t = Inr (data_of t ! ?k, u')" by auto
    show ?thesis
      unfolding n using u u' inside_pos[OF ins] inside_covers[OF ins]
        inside_value[OF sh ok tm ins] by blast
  qed
  have tab: "grow 1 1 = Some 1" "grow 1 2 = Some 2" "grow 1 5 = Some 8" "grow 1 8 = Some 8"
    "grow 1 10 = Some 16"
    by (simp_all add: grow.simps)
  have p2: "\<exists>d. n_of t = 2 ^ d" using n by blast
  have le: "length s \<le> n_of t" using m mn n by simp
  show ?thesis using p2 m le least g tab len q by blast
qed

text \<open>
  The tree over \<open>3, 1, 2\<close> has \<open>n = 4\<close> and \<open>7\<close> slots.
\<close>

theorem power_of_two_sizing_witness:
  "ready compare [3, 1, 2] example_tree \<and> n_of example_tree = 4 \<and> m_of example_tree = 3 \<and>
   grow 1 (length [3::real, 1, 2]) = Some 4 \<and> length (data_of example_tree) = 3 + 4 \<and>
   (\<exists>k u u'. get_value_sub (0 + 1) (2 + 1) 1 1 4 example_tree = Inr (k, u) \<and> k \<noteq> 0 \<and>
      get_value 0 2 example_tree = Inr (data_of example_tree ! k, u') \<and>
      (\<forall>j. covers 4 k j \<longrightarrow> 0 \<le> j \<and> j \<le> 2) \<and>
      (\<exists>j. 0 \<le> j \<and> j \<le> 2 \<and> data_of example_tree ! k = [3, 1, 2] ! j))"
proof -
  note th = power_of_two_sizing[OF ready_example]
  have n: "n_of example_tree = 4" "m_of example_tree = 3"
    "length (data_of example_tree) = 3 + 4"
    by (simp_all add: example_tree_def)
  from th have g: "grow 1 (length [3::real, 1, 2]) = Some (n_of example_tree)" by blast
  from th have "\<forall>from to. from \<le> to \<and> to < length [3::real, 1, 2] \<longrightarrow>
      (\<exists>k u u'. get_value_sub (from + 1) (to + 1) 1 1 (n_of example_tree) example_tree = Inr (k, u) \<and>
         k \<noteq> 0 \<and> get_value from to example_tree = Inr (data_of example_tree ! k, u') \<and>
         (\<forall>j. covers (n_of example_tree) k j \<longrightarrow> from \<le> j \<and> j \<le> to) \<and>
         (\<exists>j. from \<le> j \<and> j \<le> to \<and> data_of example_tree ! k = [3, 1, 2] ! j))"
    by blast
  from this[rule_format, of 0 2]
  have q: "\<exists>k u u'. get_value_sub (0 + 1) (2 + 1) 1 1 (n_of example_tree) example_tree = Inr (k, u) \<and>
      k \<noteq> 0 \<and> get_value 0 2 example_tree = Inr (data_of example_tree ! k, u') \<and>
      (\<forall>j. covers (n_of example_tree) k j \<longrightarrow> 0 \<le> j \<and> j \<le> 2) \<and>
      (\<exists>j. 0 \<le> j \<and> j \<le> 2 \<and> data_of example_tree ! k = [3, 1, 2] ! j)"
    by simp
  show ?thesis using ready_example n g q unfolding n(1) by blast
qed

text \<open>
  Claim C9. In a Ready state every access to the storage made so far, by \<open>prepare\<close> and
  by every later \<open>set_leaf\<close> and \<open>get_value\<close>, was at an index below \<open>m + n\<close>, and under their
  preconditions \<open>set_leaf\<close> and \<open>get_value\<close> never access the storage out of bounds.
\<close>

theorem accesses_in_bounds:
  assumes "ready cmp s t"
  shows "(\<forall>a\<in>set (trace_of t). slot a < m_of t + n_of t) \<and>
         (\<forall>i v k. i < length s \<longrightarrow> set_leaf i v t \<noteq> Inl (Out_of_bounds k)) \<and>
         (\<forall>from to k. from \<le> to \<and> to < length s \<longrightarrow> get_value from to t \<noteq> Inl (Out_of_bounds k))"
proof -
  from assms obtain dep where inv: "well_formed cmp s dep t" and m: "m_of t = length s"
    and len: "length (data_of t) = m_of t + n_of t"
    by (rule ready_facts)
  have "trace_ok t" using inv unfolding well_formed_def by simp
  then have 1: "\<forall>a\<in>set (trace_of t). slot a < m_of t + n_of t"
    unfolding trace_ok_def len .
  have 2: "set_leaf i v t \<noteq> Inl (Out_of_bounds k)" if "i < length s" for i v k
    using set_leaf_inv[OF inv, of i v] that m by auto
  have 3: "get_value from to t \<noteq> Inl (Out_of_bounds k)" if "from \<le> to \<and> to < length s"
    for "from" to k
    using get_value_eq(1)[OF inv, of "from" to] that m by auto
  show ?thesis using 1 2 3 by blast
qed

text \<open>
  The accesses of \<open>prepare\<close> over \<open>3, 1, 2\<close> are all below \<open>7\<close>.
\<close>

theorem accesses_in_bounds_witness:
  "ready compare [3, 1, 2] example_tree \<and>
   list_all (\<lambda>a. slot a < 3 + 4) (trace_of example_tree) \<and>
   set_leaf 1 5 example_tree \<noteq> Inl (Out_of_bounds 7) \<and>
   get_value 0 2 example_tree \<noteq> Inl (Out_of_bounds 7)"
proof -
  from accesses_in_bounds[OF ready_example]
  have "\<forall>a\<in>set (trace_of example_tree). slot a < m_of example_tree + n_of example_tree"
    "set_leaf 1 5 example_tree \<noteq> Inl (Out_of_bounds 7)"
    "get_value 0 2 example_tree \<noteq> Inl (Out_of_bounds 7)"
    by simp_all
  then show ?thesis using ready_example
    by (simp add: list_all_iff) (simp add: example_tree_def)
qed

text \<open>
  Claim C10 says that \<open>set_leaf i v\<close> changes no slot other than the leaf slot \<open>n + i\<close> and
  the slots of its ancestor chain, which ends at the root, index \<open>1\<close>. The loop of \<open>update\<close>
  runs one round past the root and stores in slot \<open>0\<close> the better of the slots \<open>0\<close> and \<open>1\<close>.
  On the tree over \<open>3, 1, 2\<close>, \<open>set_leaf 1 (-5)\<close> writes the leaf slot \<open>5\<close> and its ancestors
  \<open>2\<close> and \<open>1\<close>, and it also changes slot \<open>0\<close> from \<open>0\<close> to \<open>-5\<close>; the slots \<open>3\<close>, \<open>4\<close> and
  \<open>6\<close> keep their values.
\<close>

theorem set_leaf_changes_slot_0:
  "map_sum id data_of (set_leaf 1 (-5) example_tree) = Inr [-5, -5, -5, 2, 3, -5, 2] \<and>
   data_of example_tree = [0, 1, 1, 2, 3, 1, 2] \<and>
   n_of example_tree + 1 = 5 \<and> ancestors 5 = [2, 1]"
  by code_simp

end
